theory Spec2Isabelle
  imports Complex_Main "HOL-Library.Code_Target_Numeral"
begin

section \<open>The in-process asynchronous task engine (async-task.service.ts)\<close>

text \<open>
  Every read of the clock (\<open>new Date()\<close>, \<open>Date.now()\<close>) and the random suffix drawn by
  \<open>generateTaskId()\<close> are parameters of the operation that reads them; the clock gives a
  whole number of milliseconds. The handler of a task is an opaque value of type \<open>'h\<close>:
  the engine only stores it and passes it to the execution wrapper.
\<close>

subsection \<open>Numbers and dates of the runtime\<close>

text \<open>
  The numbers a caller passes in the options (\<open>delay\<close>, \<open>retries\<close>, \<open>retryDelay\<close>,
  \<open>timeout\<close>) are JavaScript numbers: a finite value, \<open>NaN\<close> or an infinity with its sign
  (\<open>True\<close> for \<open>+Infinity\<close>). The sign of zero is not kept: no operation of the engine
  observes it.
\<close>

datatype number = Finite rat | NaN | Infinity bool

text \<open>
  Addition rounds the exact sum to the nearest double, ties to the even significand.
  \<open>ilog2 a\<close> is the binary exponent of a positive \<open>a\<close>, \<open>ulp_exponent a\<close> the exponent of
  the last place of its 53-bit significand (fixed at \<open>-1074\<close> for subnormal values), and a
  magnitude that rounds to \<open>2^1024\<close> or more overflows to an infinity.
\<close>

fun bit_length :: "nat \<Rightarrow> nat" where
  "bit_length n = (if n = 0 then 0 else Suc (bit_length (n div 2)))"

definition ilog2 :: "rat \<Rightarrow> int" where
  "ilog2 a =
     (let e = int (bit_length (nat (fst (quotient_of a)))) -
              int (bit_length (nat (snd (quotient_of a))))
      in if 2 powi e \<le> a then e else e - 1)"

definition round_half_even :: "rat \<Rightarrow> int" where
  "round_half_even m =
     (let f = \<lfloor>m\<rfloor>; d = m - of_int f
      in if d < 1 / 2 then f else if 1 / 2 < d then f + 1 else if even f then f else f + 1)"

definition overflow_threshold :: rat where
  "overflow_threshold = 2 powi 1024"

definition ulp_exponent :: "rat \<Rightarrow> int" where
  "ulp_exponent a = max (ilog2 a) (- 1022) - 52"

definition round_magnitude :: "rat \<Rightarrow> rat" where
  "round_magnitude a =
     of_int (round_half_even (a / 2 powi ulp_exponent a)) * 2 powi ulp_exponent a"

definition round_double :: "rat \<Rightarrow> number" where
  "round_double x =
     (if x = 0 then Finite 0
      else
        let r = round_magnitude \<bar>x\<bar>
        in if overflow_threshold \<le> r then Infinity (0 < x)
           else Finite (if 0 < x then r else - r))"

text \<open>\<open>a + b\<close> and \<open>a < b\<close> on numbers.\<close>

fun js_add :: "number \<Rightarrow> number \<Rightarrow> number" where
  "js_add (Finite x) (Finite y) = round_double (x + y)"
| "js_add NaN b = NaN"
| "js_add a NaN = NaN"
| "js_add (Infinity s) (Infinity t) = (if s = t then Infinity s else NaN)"
| "js_add (Infinity s) (Finite y) = Infinity s"
| "js_add (Finite x) (Infinity t) = Infinity t"

fun js_less :: "number \<Rightarrow> number \<Rightarrow> bool" where
  "js_less (Finite x) (Finite y) = (x < y)"
| "js_less NaN b = False"
| "js_less a NaN = False"
| "js_less (Infinity s) (Infinity t) = (\<not> s \<and> t)"
| "js_less (Infinity s) (Finite y) = (\<not> s)"
| "js_less (Finite x) (Infinity t) = t"

text \<open>
  A \<open>Date\<close> is its time value in whole milliseconds, or \<open>None\<close> for an invalid date.
  \<open>new Date(v)\<close> clips the number: a value that is not finite or lies beyond
  8.64e15 ms on either side gives an invalid date, any other value loses its fraction.
  A comparison of dates reads their time values, and every comparison with an invalid
  date is false. \<open>new Date()\<close> is always valid, so the clock, \<open>createdAt\<close> and
  \<open>lastAttempt\<close> are plain integers.
\<close>

type_synonym date = "int option"

definition toInteger :: "rat \<Rightarrow> int" where
  "toInteger x = (if 0 \<le> x then \<lfloor>x\<rfloor> else \<lceil>x\<rceil>)"

definition new_Date :: "number \<Rightarrow> date" where
  "new_Date v =
     (case v of
        Finite x \<Rightarrow> if 8640000000000000 < \<bar>x\<bar> then None else Some (toInteger x)
      | NaN \<Rightarrow> None
      | Infinity s \<Rightarrow> None)"

definition date_le :: "date \<Rightarrow> int \<Rightarrow> bool" where
  "date_le d now = (case d of None \<Rightarrow> False | Some t \<Rightarrow> t \<le> now)"

definition date_greater :: "date \<Rightarrow> int \<Rightarrow> bool" where
  "date_greater d now = (case d of None \<Rightarrow> False | Some t \<Rightarrow> now < t)"

text \<open>The decimal rendering of a whole number in a template string.\<close>

definition digit_char :: "nat \<Rightarrow> char" where
  "digit_char d = ''0123456789'' ! d"

fun decimal :: "nat \<Rightarrow> string" where
  "decimal n = (if n < 10 then [digit_char n] else decimal (n div 10) @ [digit_char (n mod 10)])"

definition number_to_string :: "int \<Rightarrow> string" where
  "number_to_string i = (if i < 0 then CHR ''-'' # decimal (nat (- i)) else decimal (nat i))"

subsection \<open>Records of the source\<close>

datatype priority = Low | Normal | High

datatype status = Pending | Running | Completed | Failed

text \<open>\<open>interface TaskOptions\<close>: every field may be omitted.\<close>

record TaskOptions =
  delay :: "number option"
  priority :: "priority option"
  retries :: "number option"
  retryDelay :: "number option"
  timeout :: "number option"

text \<open>\<open>Required<TaskOptions>\<close>, the options stored in a queued task.\<close>

record RequiredTaskOptions =
  delay :: number
  priority :: priority
  retries :: number
  retryDelay :: number
  timeout :: number

record 'h QueuedTask =
  taskId :: string
  name :: string
  handler :: 'h
  options :: RequiredTaskOptions
  createdAt :: int
  attempts :: int
  lastAttempt :: "int option"
  nextRetry :: "date option"
  status :: status

record PriorityCounts =
  high :: nat
  normal :: nat
  low :: nat

record QueueStats =
  total :: nat
  pending :: nat
  running :: nat
  completed :: nat
  failed :: nat
  runningTasks :: int
  maxConcurrentTasks :: int
  workers :: nat
  isEnabled :: bool
  byPriority :: PriorityCounts

text \<open>The part of \<open>AppConfig\<close> (app.types.ts) that the constructor navigates with
  \<open>appConfig?.features?.asyncTasksEnabled ?? false\<close>; each level may be missing.\<close>

record FeatureFlags =
  cacheEnabled :: bool
  performanceLogging :: bool
  detailedErrors :: bool
  swaggerEnabled :: bool
  healthChecksEnabled :: bool
  asyncTasksEnabled :: "bool option"

record AppConfig =
  port :: int
  prefix :: string
  version :: string
  features :: "FeatureFlags option"

subsection \<open>The engine state\<close>

text \<open>
  Task objects are mutable and shared between the registry and the suspended runs of
  \<open>processNextTask\<close>, so they live in an object store: \<open>heap\<close> holds the objects and a
  reference is an index into it. \<open>tasks\<close> is the \<open>Map<string, QueuedTask>\<close> in its
  insertion order. \<open>workers\<close> holds one entry per interval timer (its period in ms),
  \<open>inflight\<close> the task objects whose \<open>processNextTask\<close> run is suspended at the
  \<open>await\<close> of the execution wrapper, and \<open>purgeTimers\<close> the pending
  \<open>setTimeout\<close> callbacks that delete a completed task (delay in ms, task id).
\<close>

type_synonym ref = nat

record 'h engine =
  heap :: "'h QueuedTask list"
  tasks :: "(string \<times> ref) list"
  workers :: "int list"
  maxConcurrentTasks :: int
  defaultRetries :: number
  defaultRetryDelay :: number
  defaultTimeout :: number
  isEnabled :: bool
  isShuttingDown :: bool
  runningTasks :: int
  inflight :: "ref list"
  purgeTimers :: "(int \<times> string) list"

datatype error = ServiceDisabled

subsection \<open>\<open>Map\<close> operations, insertion order kept\<close>

fun Map_get :: "('k \<times> 'v) list \<Rightarrow> 'k \<Rightarrow> 'v option" where
  "Map_get [] k = None"
| "Map_get ((k', v) # m) k = (if k' = k then Some v else Map_get m k)"

fun Map_set :: "'k \<Rightarrow> 'v \<Rightarrow> ('k \<times> 'v) list \<Rightarrow> ('k \<times> 'v) list" where
  "Map_set k v [] = [(k, v)]"
| "Map_set k v ((k', v') # m) =
     (if k' = k then (k, v) # m else (k', v') # Map_set k v m)"

fun Map_delete :: "'k \<Rightarrow> ('k \<times> 'v) list \<Rightarrow> ('k \<times> 'v) list" where
  "Map_delete k [] = []"
| "Map_delete k ((k', v') # m) = (if k' = k then m else (k', v') # Map_delete k m)"

text \<open>\<open>a ?? d\<close>\<close>

definition nullish :: "'a option \<Rightarrow> 'a \<Rightarrow> 'a" where
  "nullish a d = (case a of None \<Rightarrow> d | Some v \<Rightarrow> v)"

text \<open>The object a reference points to, and \<open>Array.from(this.tasks.values())\<close>. The
  references held by the registry and by the suspended runs always point into the store
  (\<open>registry_inv\<close> and \<open>inflight_inv\<close> below, which hold in every reachable state).\<close>

definition obj :: "'h engine \<Rightarrow> ref \<Rightarrow> 'h QueuedTask" where
  "obj s r = heap s ! r"

definition task_values :: "'h engine \<Rightarrow> 'h QueuedTask list" where
  "task_values s = map (\<lambda>(k, r). obj s r) (tasks s)"

subsection \<open>Construction\<close>

definition startWorkers :: "'h engine \<Rightarrow> 'h engine" where
  "startWorkers s =
     fold (\<lambda>i s'. s'\<lparr>workers := workers s' @ [100]\<rparr>) [0..<nat (maxConcurrentTasks s)] s"

definition constructor :: "AppConfig option \<Rightarrow> 'h engine" where
  "constructor appConfig =
     (let enabled =
            nullish (case appConfig of None \<Rightarrow> None
                     | Some c \<Rightarrow> (case features c of None \<Rightarrow> None
                                  | Some f \<Rightarrow> asyncTasksEnabled f)) False;
          s = \<lparr>heap = [], tasks = [], workers = [],
               maxConcurrentTasks = 5, defaultRetries = Finite 3,
               defaultRetryDelay = Finite 5000, defaultTimeout = Finite 30000,
               isEnabled = enabled, isShuttingDown = False,
               runningTasks = 0, inflight = [], purgeTimers = []\<rparr>
      in if isEnabled s then startWorkers s else s)"

subsection \<open>Admission API\<close>

text \<open>\<open>`task_${Date.now()}_${Math.random().toString(36).substr(2, 9)}`\<close>: \<open>ms\<close> is the
  clock read by \<open>Date.now()\<close> and \<open>rnd\<close> the random suffix, the result of
  \<open>Math.random().toString(36).substr(2, 9)\<close>.\<close>

definition generateTaskId :: "int \<Rightarrow> string \<Rightarrow> string" where
  "generateTaskId ms rnd = ''task_'' @ number_to_string ms @ ''_'' @ rnd"

text \<open>\<open>addTask\<close>: \<open>ms\<close> and \<open>rnd\<close> are the clock and the suffix that \<open>generateTaskId\<close>
  draws, \<open>now\<close> the clock of \<open>createdAt\<close>.\<close>

definition addTask ::
  "'h engine \<Rightarrow> string \<Rightarrow> 'h \<Rightarrow> TaskOptions \<Rightarrow> int \<Rightarrow> string \<Rightarrow> int \<Rightarrow>
     error + (string \<times> 'h engine)" where
  "addTask s nm h opts ms rnd now =
     (if \<not> isEnabled s then Inl ServiceDisabled
      else
        let tid = generateTaskId ms rnd;
            task = \<lparr>taskId = tid, name = nm, handler = h,
                    options = \<lparr>delay = nullish (TaskOptions.delay opts) (Finite 0),
                               priority = nullish (TaskOptions.priority opts) Normal,
                               retries = nullish (TaskOptions.retries opts) (defaultRetries s),
                               retryDelay = nullish (TaskOptions.retryDelay opts) (defaultRetryDelay s),
                               timeout = nullish (TaskOptions.timeout opts) (defaultTimeout s)\<rparr>,
                    createdAt = now, attempts = 0, lastAttempt = None, nextRetry = None,
                    status = Pending\<rparr>
        in Inr (tid, s\<lparr>heap := heap s @ [task],
                       tasks := Map_set tid (length (heap s)) (tasks s)\<rparr>))"

definition addDelayedTask ::
  "'h engine \<Rightarrow> string \<Rightarrow> 'h \<Rightarrow> number \<Rightarrow> TaskOptions \<Rightarrow> int \<Rightarrow> string \<Rightarrow> int \<Rightarrow>
     error + (string \<times> 'h engine)" where
  "addDelayedTask s nm h delayMs opts ms rnd now =
     addTask s nm h (opts\<lparr>TaskOptions.delay := Some delayMs\<rparr>) ms rnd now"

definition addPriorityTask ::
  "'h engine \<Rightarrow> string \<Rightarrow> 'h \<Rightarrow> TaskOptions \<Rightarrow> int \<Rightarrow> string \<Rightarrow> int \<Rightarrow>
     error + (string \<times> 'h engine)" where
  "addPriorityTask s nm h opts ms rnd now =
     addTask s nm h (opts\<lparr>TaskOptions.priority := Some High\<rparr>) ms rnd now"

definition getTaskStatus :: "'h engine \<Rightarrow> string \<Rightarrow> 'h QueuedTask option" where
  "getTaskStatus s tid =
     (case Map_get (tasks s) tid of None \<Rightarrow> None | Some r \<Rightarrow> Some (obj s r))"

definition cancelTask :: "'h engine \<Rightarrow> string \<Rightarrow> bool \<times> 'h engine" where
  "cancelTask s tid =
     (case Map_get (tasks s) tid of
        None \<Rightarrow> (False, s)
      | Some r \<Rightarrow>
          if status (obj s r) = Running \<or> status (obj s r) = Completed then (False, s)
          else (True, s\<lparr>tasks := Map_delete tid (tasks s)\<rparr>))"

definition getQueueStats :: "'h engine \<Rightarrow> QueueStats" where
  "getQueueStats s =
     (let ts = task_values s in
      \<lparr>total = length ts,
       pending = length (filter (\<lambda>t. status t = Pending) ts),
       running = length (filter (\<lambda>t. status t = Running) ts),
       completed = length (filter (\<lambda>t. status t = Completed) ts),
       failed = length (filter (\<lambda>t. status t = Failed) ts),
       QueueStats.runningTasks = runningTasks s,
       QueueStats.maxConcurrentTasks = maxConcurrentTasks s,
       QueueStats.workers = length (workers s),
       QueueStats.isEnabled = isEnabled s,
       byPriority =
         \<lparr>high = length (filter (\<lambda>t. priority (options t) = High \<and> status t = Pending) ts),
          normal = length (filter (\<lambda>t. priority (options t) = Normal \<and> status t = Pending) ts),
          low = length (filter (\<lambda>t. priority (options t) = Low \<and> status t = Pending) ts)\<rparr>\<rparr>)"

definition clearCompletedTasks :: "'h engine \<Rightarrow> nat \<times> 'h engine" where
  "clearCompletedTasks s =
     (let toRemove = filter (\<lambda>(k, r). status (obj s r) = Completed \<or> status (obj s r) = Failed)
                            (tasks s)
      in (length toRemove,
          fold (\<lambda>(k, r) s'. s'\<lparr>tasks := Map_delete k (tasks s')\<rparr>) toRemove s))"

subsection \<open>Eligibility selector\<close>

text \<open>\<open>new Date(task.createdAt.getTime() + (task.options.delay ?? 0))\<close>; the stored
  delay is never nullish.\<close>

definition scheduledTime :: "'h QueuedTask \<Rightarrow> date" where
  "scheduledTime task = new_Date (js_add (Finite (of_int (createdAt task))) (delay (options task)))"

text \<open>The filter of \<open>getNextTask\<close>, in the order of its tests; a retry date that is set
  is an object and so truthy, also when it is invalid.\<close>

definition available :: "int \<Rightarrow> 'h QueuedTask \<Rightarrow> bool" where
  "available now task =
     (if status task \<noteq> Pending then False
      else if (case nextRetry task of None \<Rightarrow> False | Some d \<Rightarrow> date_greater d now) then False
      else date_le (scheduledTime task) now)"

definition priorityOrder :: "priority \<Rightarrow> int" where
  "priorityOrder p = (case p of High \<Rightarrow> 3 | Normal \<Rightarrow> 2 | Low \<Rightarrow> 1)"

text \<open>The comparator passed to \<open>sort\<close>.\<close>

definition compareTasks :: "'h QueuedTask \<Rightarrow> 'h QueuedTask \<Rightarrow> int" where
  "compareTasks a b =
     (let aPriority = priorityOrder (priority (options a));
          bPriority = priorityOrder (priority (options b))
      in if aPriority \<noteq> bPriority then bPriority - aPriority
         else createdAt a - createdAt b)"

text \<open>\<open>Array.prototype.sort\<close> with a comparator: a stable sort (ECMAScript 2019), here
  by insertion.\<close>

fun insert_by :: "('a \<Rightarrow> 'a \<Rightarrow> int) \<Rightarrow> 'a \<Rightarrow> 'a list \<Rightarrow> 'a list" where
  "insert_by cmp x [] = [x]"
| "insert_by cmp x (y # ys) = (if cmp x y \<le> 0 then x # y # ys else y # insert_by cmp x ys)"

definition sort_by :: "('a \<Rightarrow> 'a \<Rightarrow> int) \<Rightarrow> 'a list \<Rightarrow> 'a list" where
  "sort_by cmp xs = foldr (insert_by cmp) xs []"

definition getNextTask :: "'h engine \<Rightarrow> int \<Rightarrow> ref option" where
  "getNextTask s now =
     (let availableTasks = filter (\<lambda>r. available now (obj s r)) (map snd (tasks s))
      in if length availableTasks = 0 then None
         else (case sort_by (\<lambda>a b. compareTasks (obj s a) (obj s b)) availableTasks of
                 [] \<Rightarrow> None
               | r # _ \<Rightarrow> Some r))"

subsection \<open>Dispatch: claim, outcome, retry policy\<close>

datatype attempt_error = Timeout number | HandlerFailure string

datatype outcome = Resolved | Rejected attempt_error

text \<open>\<open>processNextTask\<close> up to its \<open>await\<close>: the check of the counter, the selection
  and the claim. \<open>now\<close> is the clock read by \<open>getNextTask\<close>, \<open>now'\<close> the one stamped
  into \<open>lastAttempt\<close>.\<close>

definition processNextTask_claim :: "'h engine \<Rightarrow> int \<Rightarrow> int \<Rightarrow> 'h engine" where
  "processNextTask_claim s now now' =
     (if runningTasks s \<ge> maxConcurrentTasks s then s
      else (case getNextTask s now of
              None \<Rightarrow> s
            | Some r \<Rightarrow>
                s\<lparr>runningTasks := runningTasks s + 1,
                  heap := (heap s)[r := (obj s r)\<lparr>status := Running,
                                                attempts := attempts (obj s r) + 1,
                                                lastAttempt := Some now'\<rparr>],
                  inflight := inflight s @ [r]\<rparr>))"

text \<open>\<open>processNextTask\<close> after the \<open>await\<close>, for the run that holds task object \<open>r\<close>:
  the \<open>try\<close> continuation on success, the \<open>catch\<close> block on an error of the wrapper,
  then \<open>finally\<close>. \<open>now\<close> is the \<open>Date.now()\<close> of the retry branch.\<close>

definition processNextTask_settle :: "'h engine \<Rightarrow> ref \<Rightarrow> outcome \<Rightarrow> int \<Rightarrow> 'h engine" where
  "processNextTask_settle s r out now =
     (let task = obj s r;
          s' = (case out of
                  Resolved \<Rightarrow>
                    s\<lparr>heap := (heap s)[r := task\<lparr>status := Completed\<rparr>],
                      purgeTimers := purgeTimers s @ [(60000, taskId task)]\<rparr>
                | Rejected e \<Rightarrow>
                    if js_less (Finite (of_int (attempts task))) (retries (options task))
                    then s\<lparr>heap := (heap s)[r := task\<lparr>status := Pending,
                           nextRetry := Some (new_Date (js_add (Finite (of_int now))
                                                          (retryDelay (options task))))\<rparr>]\<rparr>
                    else s\<lparr>heap := (heap s)[r := task\<lparr>status := Failed\<rparr>]\<rparr>)
      in s'\<lparr>runningTasks := runningTasks s' - 1, inflight := remove1 r (inflight s')\<rparr>)"

text \<open>The callback of one worker interval.\<close>

definition worker_tick :: "'h engine \<Rightarrow> int \<Rightarrow> int \<Rightarrow> 'h engine" where
  "worker_tick s now now' = (if isShuttingDown s then s else processNextTask_claim s now now')"

text \<open>The callback of the \<open>k\<close>-th pending purge timer: \<open>this.tasks.delete(task.id)\<close>.\<close>

definition purgeTimer_fire :: "'h engine \<Rightarrow> nat \<Rightarrow> 'h engine" where
  "purgeTimer_fire s k =
     s\<lparr>tasks := Map_delete (snd (purgeTimers s ! k)) (tasks s),
       purgeTimers := take k (purgeTimers s) @ drop (Suc k) (purgeTimers s)\<rparr>"

text \<open>\<open>onModuleDestroy\<close>: the flag and the interval timers; its waiting loop changes no
  state.\<close>

definition onModuleDestroy :: "'h engine \<Rightarrow> 'h engine" where
  "onModuleDestroy s = s\<lparr>isShuttingDown := True, workers := []\<rparr>"

subsection \<open>The engine as a transition system\<close>

text \<open>
  JavaScript runs each callback to its next \<open>await\<close> without interleaving, so every event
  below is one indivisible step: a call of the public API, the firing of a worker
  interval (only while an interval timer exists), the settling of the execution wrapper
  awaited by a suspended run (only for a task in flight), the firing of a purge timer
  (only a pending one), and shutdown.
\<close>

datatype 'h event =
    AddTask string 'h TaskOptions int string int
  | CancelTask string
  | ClearCompletedTasks
  | Tick int int
  | Settle ref outcome int
  | PurgeTimer nat
  | OnModuleDestroy

fun step :: "'h engine \<Rightarrow> 'h event \<Rightarrow> 'h engine" where
  "step s (AddTask nm h opts ms rnd now) =
     (case addTask s nm h opts ms rnd now of Inl e \<Rightarrow> s | Inr (i, s') \<Rightarrow> s')"
| "step s (CancelTask tid) = snd (cancelTask s tid)"
| "step s ClearCompletedTasks = snd (clearCompletedTasks s)"
| "step s (Tick now now') = (if workers s = [] then s else worker_tick s now now')"
| "step s (Settle r out now) =
     (if r \<in> set (inflight s) then processNextTask_settle s r out now else s)"
| "step s (PurgeTimer k) = (if k < length (purgeTimers s) then purgeTimer_fire s k else s)"
| "step s OnModuleDestroy = onModuleDestroy s"

definition run :: "'h engine \<Rightarrow> 'h event list \<Rightarrow> 'h engine" where
  "run s evs = foldl step s evs"

inductive reachable :: "'h engine \<Rightarrow> bool" where
  init: "reachable (constructor appConfig)"
| after: "reachable s \<Longrightarrow> reachable (step s e)"

subsection \<open>Execution wrapper\<close>

text \<open>
  One call of \<open>executeWithTimeout\<close>: \<open>invocations\<close> counts the calls of the handler,
  \<open>timer\<close> is the armed timeout with its delay (\<open>None\<close> once cleared or fired) and
  \<open>result\<close> the state of the returned promise (\<open>None\<close> while pending). A settled
  promise ignores every later \<open>resolve\<close> and \<open>reject\<close>.
\<close>

datatype 'r settlement = Fulfilled 'r | RejectedWith string

datatype handler_call = Returned | Threw string

datatype 'r wrapper_event = HandlerSettles "'r settlement" | TimerFires

record 'r wrapper =
  invocations :: nat
  timer :: "number option"
  result :: "(attempt_error + 'r) option"

definition settle_once :: "'a option \<Rightarrow> 'a \<Rightarrow> 'a option" where
  "settle_once p v = (case p of None \<Rightarrow> Some v | Some old \<Rightarrow> Some old)"

text \<open>The promise executor: the timer is armed, then the handler is called; a handler
  that throws instead of returning a promise rejects the new promise.\<close>

definition executeWithTimeout :: "handler_call \<Rightarrow> number \<Rightarrow> 'r wrapper" where
  "executeWithTimeout call timeoutMs =
     (let w = \<lparr>invocations = 0, timer = Some timeoutMs, result = None\<rparr>;
          w' = w\<lparr>invocations := invocations w + 1\<rparr>
      in case call of
           Returned \<Rightarrow> w'
         | Threw e \<Rightarrow> w'\<lparr>result := settle_once (result w') (Inl (HandlerFailure e))\<rparr>)"

text \<open>The \<open>then\<close> and \<open>catch\<close> callbacks of the handler's promise, and the timer's.\<close>

fun wrapper_step :: "'r wrapper \<Rightarrow> 'r wrapper_event \<Rightarrow> 'r wrapper" where
  "wrapper_step w (HandlerSettles (Fulfilled v)) =
     w\<lparr>timer := None, result := settle_once (result w) (Inr v)\<rparr>"
| "wrapper_step w (HandlerSettles (RejectedWith e)) =
     w\<lparr>timer := None, result := settle_once (result w) (Inl (HandlerFailure e))\<rparr>"
| "wrapper_step w TimerFires =
     (case timer w of
        None \<Rightarrow> w
      | Some ms \<Rightarrow> w\<lparr>timer := None, result := settle_once (result w) (Inl (Timeout ms))\<rparr>)"

definition wrapper_run :: "'r wrapper \<Rightarrow> 'r wrapper_event list \<Rightarrow> 'r wrapper" where
  "wrapper_run w evs = foldl wrapper_step w evs"

text \<open>What the wrapper reports when the handler's promise settles.\<close>

definition settlement_outcome :: "'r settlement \<Rightarrow> attempt_error + 'r" where
  "settlement_outcome x = (case x of Fulfilled v \<Rightarrow> Inr v | RejectedWith e \<Rightarrow> Inl (HandlerFailure e))"

subsection \<open>Invariants of the reachable states\<close>

text \<open>The registry has unique keys, holds each task object once and only objects of the
  store; the tasks in flight are exactly the objects whose status is running, and their
  number is the in-flight counter.\<close>

definition registry_inv :: "'h engine \<Rightarrow> bool" where
  "registry_inv s \<longleftrightarrow>
     distinct (map fst (tasks s)) \<and> distinct (map snd (tasks s)) \<and>
     (\<forall>r \<in> set (map snd (tasks s)). r < length (heap s))"

definition inflight_inv :: "'h engine \<Rightarrow> bool" where
  "inflight_inv s \<longleftrightarrow>
     distinct (inflight s) \<and>
     (\<forall>r \<in> set (inflight s). r < length (heap s) \<and> status (heap s ! r) = Running) \<and>
     (\<forall>r < length (heap s). status (heap s ! r) = Running \<longrightarrow> r \<in> set (inflight s)) \<and>
     runningTasks s = int (length (inflight s)) \<and>
     runningTasks s \<le> maxConcurrentTasks s"

definition engine_inv :: "'h engine \<Rightarrow> bool" where
  "engine_inv s \<longleftrightarrow> registry_inv s \<and> inflight_inv s"

subsection \<open>Notions of the specification, sample configurations and runs\<close>




text \<open>The feature flag as the configuration gives it, \<open>false\<close> when any level is missing.\<close>

definition asyncTasksFlag :: "AppConfig option \<Rightarrow> bool" where
  "asyncTasksFlag appConfig =
     (case appConfig of
        None \<Rightarrow> False
      | Some c \<Rightarrow> (case features c of
                     None \<Rightarrow> False
                   | Some f \<Rightarrow> (case asyncTasksEnabled f of None \<Rightarrow> False | Some b \<Rightarrow> b)))"

text \<open>Two configurations, one enabling the engine and one disabling it.\<close>

definition config_on :: "AppConfig option" where
  "config_on = Some \<lparr>port = 3000, prefix = ''api'', version = ''1'',
     features = Some \<lparr>cacheEnabled = True, performanceLogging = False, detailedErrors = False,
       swaggerEnabled = False, healthChecksEnabled = True, asyncTasksEnabled = Some True\<rparr>\<rparr>"

definition config_off :: "AppConfig option" where
  "config_off = Some \<lparr>port = 8080, prefix = ''v2'', version = ''2'',
     features = Some \<lparr>cacheEnabled = False, performanceLogging = True, detailedErrors = True,
       swaggerEnabled = True, healthChecksEnabled = False, asyncTasksEnabled = Some False\<rparr>\<rparr>"

text \<open>The status transitions of the task life cycle.\<close>

definition allowed_transition :: "status \<Rightarrow> status \<Rightarrow> bool" where
  "allowed_transition a b \<longleftrightarrow>
     (a = Pending \<and> b = Running) \<or> (a = Running \<and> b = Completed) \<or>
     (a = Running \<and> b = Pending) \<or> (a = Running \<and> b = Failed)"

text \<open>The options object \<open>{}\<close>.\<close>

definition no_options :: TaskOptions where
  "no_options = \<lparr>TaskOptions.delay = None, TaskOptions.priority = None,
     TaskOptions.retries = None, TaskOptions.retryDelay = None, TaskOptions.timeout = None\<rparr>"

text \<open>An enabled engine after one submission with default options.\<close>

definition one_pending :: "string engine" where
  "one_pending = run (constructor config_on) [AddTask ''job'' ''h'' no_options 0 ''a'' 0]"








text \<open>A run that leaves one failed, one completed, one running and one pending task:
  four submissions (the first without retries, the last delayed), three polls, the
  failure of the first attempt and the success of the second.\<close>

definition mixed_events :: "string event list" where
  "mixed_events =
     [AddTask ''a'' ''h'' (no_options\<lparr>TaskOptions.retries := Some (Finite 0)\<rparr>) 0 ''a'' 0,
      AddTask ''b'' ''h'' no_options 1 ''b'' 1,
      AddTask ''c'' ''h'' no_options 2 ''c'' 2,
      AddTask ''d'' ''h'' (no_options\<lparr>TaskOptions.delay := Some (Finite 100000)\<rparr>) 3 ''d'' 3,
      Tick 100 100, Tick 100 100, Tick 100 100,
      Settle 0 (Rejected (HandlerFailure ''boom'')) 200,
      Settle 1 Resolved 210]"

definition mixed :: "string engine" where
  "mixed = run (constructor config_on) mixed_events"

text \<open>The test of \<open>clearCompletedTasks\<close> on an entry of the registry.\<close>

definition finished :: "'h engine \<Rightarrow> string \<times> ref \<Rightarrow> bool" where
  "finished s p \<longleftrightarrow> status (obj s (snd p)) = Completed \<or> status (obj s (snd p)) = Failed"

text \<open>A task submitted with \<open>retries = 3\<close> whose every attempt fails (handler error,
  timeout, handler error), polled again after each retry delay; and a task submitted with
  \<open>retries = 1\<close> whose first attempt fails.\<close>

definition failing_events :: "string event list" where
  "failing_events =
     [AddTask ''job'' ''h'' (no_options\<lparr>TaskOptions.retries := Some (Finite 3)\<rparr>) 0 ''a'' 0,
      Tick 100 100, Settle 0 (Rejected (HandlerFailure ''boom'')) 150,
      Tick 5200 5200, Settle 0 (Rejected (Timeout (Finite 30000))) 35200,
      Tick 40300 40300, Settle 0 (Rejected (HandlerFailure ''boom'')) 40350]"

definition single_retry_events :: "string event list" where
  "single_retry_events =
     [AddTask ''job'' ''h'' (no_options\<lparr>TaskOptions.retries := Some (Finite 1)\<rparr>) 0 ''a'' 0,
      Tick 100 100, Settle 0 (Rejected (HandlerFailure ''boom'')) 150]"

section \<open>Properties\<close>

subsection \<open>Numbers: sums that a double holds exactly\<close>

declare bit_length.simps [simp del]

lemma bit_length_bounds:
  "0 < n \<Longrightarrow> 2 ^ (bit_length n - 1) \<le> n \<and> n < 2 ^ bit_length n"
proof (induction n rule: bit_length.induct)
  case (1 n)
  show ?case
  proof (cases "n div 2 = 0")
    case True
    with "1.prems" have "n = 1" by (simp add: div_eq_0_iff)
    then show ?thesis
      by (simp add: bit_length.simps [of "Suc 0"] bit_length.simps [of 0])
  next
    case False
    with "1.IH" "1.prems" have ih: "2 ^ (bit_length (n div 2) - 1) \<le> n div 2"
      "n div 2 < 2 ^ bit_length (n div 2)" by simp_all
    have pos: "bit_length (n div 2) > 0" using False by (simp add: bit_length.simps [of "n div 2"])
    have bl: "bit_length n = Suc (bit_length (n div 2))"
      using "1.prems" by (simp add: bit_length.simps [of n])
    have "2 ^ (bit_length n - 1) = 2 * 2 ^ (bit_length (n div 2) - 1)"
      using pos by (cases "bit_length (n div 2)") (simp_all add: bl)
    also have "\<dots> \<le> 2 * (n div 2)" using ih(1) by simp
    also have "\<dots> \<le> n" by simp
    finally have lo: "2 ^ (bit_length n - 1) \<le> n" .
    have "n < 2 * (n div 2) + 2" by presburger
    also have "\<dots> \<le> 2 * 2 ^ bit_length (n div 2)" using ih(2) by simp
    finally have hi: "n < 2 ^ bit_length n" by (simp add: bl)
    from lo hi show ?thesis by simp
  qed
qed

lemma ilog2_le:
  assumes "0 < a"
  shows "2 powi (ilog2 a) \<le> a"
proof -
  obtain p q where pq: "quotient_of a = (p, q)" by (cases "quotient_of a")
  then have q: "0 < q" and a: "a = of_int p / of_int q"
    using quotient_of_denom_pos [OF pq] quotient_of_div [OF pq] by simp_all
  from assms q a have p: "0 < p" by (simp add: zero_less_divide_iff)
  define bp where "bp = bit_length (nat p)"
  define bq where "bq = bit_length (nat q)"
  from bit_length_bounds [of "nat p"] p have lo: "2 ^ (bp - 1) \<le> nat p" and bp: "0 < bp"
    by (auto simp: bp_def bit_length.simps [of "nat p"])
  from bit_length_bounds [of "nat q"] q have hi: "nat q < 2 ^ bq" by (simp add: bq_def)
  have lo': "(2::rat) ^ (bp - 1) \<le> of_int p"
  proof -
    have "(2::rat) ^ (bp - 1) = of_nat (2 ^ (bp - 1))" by simp
    also have "\<dots> \<le> of_nat (nat p)" using lo by (simp only: of_nat_le_iff)
    also have "\<dots> = of_int p" using p by simp
    finally show ?thesis .
  qed
  have hi': "of_int q \<le> (2::rat) ^ bq"
  proof -
    have "of_int q = (of_nat (nat q) :: rat)" using q by simp
    also have "\<dots> \<le> of_nat (2 ^ bq)" using hi by (simp only: of_nat_le_iff less_imp_le)
    finally show ?thesis by simp
  qed
  have "2 powi (int bp - int bq - 1) \<le> a"
  proof -
    have "int bp - int bq - 1 = int (bp - 1) - int bq" using bp by (simp add: of_nat_diff)
    then have "(2::rat) powi (int bp - int bq - 1) = 2 powi (int (bp - 1) - int bq)"
      by (simp only:)
    also have "\<dots> = 2 ^ (bp - 1) / 2 ^ bq"
      by (simp add: power_int_diff)
    also have "\<dots> \<le> of_int p / 2 ^ bq" using lo' by (simp add: divide_right_mono)
    also have "\<dots> \<le> of_int p / of_int q"
      using hi' p q by (simp add: divide_left_mono)
    finally show ?thesis by (simp add: a)
  qed
  then show ?thesis
    by (simp add: ilog2_def pq bp_def bq_def Let_def)
qed

lemma round_half_even_int: "round_half_even (of_int n) = n"
  by (simp add: round_half_even_def)

lemma round_magnitude_exact:
  assumes "a / 2 powi ulp_exponent a \<in> \<int>"
  shows "round_magnitude a = a"
proof -
  from assms obtain n where n: "a / 2 powi ulp_exponent a = of_int n"
    by (auto elim: Ints_cases)
  have "(2::rat) powi ulp_exponent a \<noteq> 0" by simp
  with n have "of_int n * 2 powi ulp_exponent a = a" by (simp add: field_simps)
  then show ?thesis by (simp add: round_magnitude_def n round_half_even_int)
qed

lemma round_double_exact:
  assumes "x \<noteq> 0" and "\<bar>x\<bar> / 2 powi ulp_exponent \<bar>x\<bar> \<in> \<int>"
    and "\<bar>x\<bar> < overflow_threshold"
  shows "round_double x = Finite x"
proof -
  have r: "round_magnitude \<bar>x\<bar> = \<bar>x\<bar>" using assms(2) by (rule round_magnitude_exact)
  have "(if 0 < x then \<bar>x\<bar> else - \<bar>x\<bar>) = x" by simp
  with assms(1,3) show ?thesis by (simp add: round_double_def Let_def r)
qed

lemma round_double_scaled:
  assumes n: "\<bar>n\<bar> \<le> 2 ^ 53" and j: "- 1074 \<le> j" "j \<le> 970"
  shows "round_double (of_int n * 2 powi j) = Finite (of_int n * 2 powi j)"
proof (cases "n = 0")
  case True
  then show ?thesis by (simp add: round_double_def)
next
  case False
  define x :: rat where "x = of_int n * 2 powi j"
  define a where "a = \<bar>x\<bar>"
  have a: "a = of_int \<bar>n\<bar> * 2 powi j" by (simp add: a_def x_def abs_mult)
  from False have xnz: "x \<noteq> 0" by (simp add: x_def)
  then have apos: "0 < a" by (simp add: a_def)
  define e where "e = ilog2 a"
  define q where "q = ulp_exponent a"
  have qe: "q = max e (- 1022) - 52" by (simp add: q_def e_def ulp_exponent_def)
  have "of_int \<bar>n\<bar> \<le> (2::rat) ^ 53"
  proof -
    have "(of_int \<bar>n\<bar> :: rat) \<le> of_int (2 ^ 53)" using n by (simp only: of_int_le_iff)
    then show ?thesis by simp
  qed
  then have "a \<le> 2 powi 53 * 2 powi j"
    unfolding a by (intro mult_right_mono) simp_all
  then have le: "a \<le> 2 powi (53 + j)" by (simp add: power_int_add)
  from ilog2_le [OF apos] le have "(2::rat) powi e \<le> 2 powi (53 + j)"
    unfolding e_def by (rule order_trans)
  then have e53: "e \<le> 53 + j"
  proof (rule contrapos_pp)
    assume "\<not> e \<le> 53 + j"
    then have "53 + j < e" by simp
    then have "(2::rat) powi (53 + j) < 2 powi e" by (rule power_int_strict_increasing) simp
    then show "\<not> (2::rat) powi e \<le> 2 powi (53 + j)" by simp
  qed
  have int: "a / 2 powi q \<in> \<int>"
  proof (cases "q \<le> j")
    case True
    have "a / 2 powi q = of_int \<bar>n\<bar> * 2 powi (j - q)"
      by (simp add: a power_int_diff)
    also have "\<dots> = of_int \<bar>n\<bar> * 2 ^ nat (j - q)"
      using True by (simp add: power_int_def)
    finally show ?thesis by simp
  next
    case False
    with e53 j have e: "e = 53 + j" and q1: "q = j + 1" by (auto simp: qe)
    from ilog2_le [OF apos] e have "2 powi (53 + j) \<le> a" by (simp add: e_def)
    with le have "a = 2 powi (53 + j)" by (rule order_antisym)
    then have "a / 2 powi q = 2 powi (53 + j - q)" by (simp add: power_int_diff)
    also have "\<dots> = 2 ^ 52" by (simp add: q1)
    finally show ?thesis by simp
  qed
  have "(2::rat) powi (53 + j) < 2 powi 1024"
    using j by (intro power_int_strict_increasing) simp_all
  with le have "a < overflow_threshold" unfolding overflow_threshold_def by (rule le_less_trans)
  with int show ?thesis
    using round_double_exact [OF xnz] by (simp add: a_def q_def x_def)
qed

lemma round_double_int:
  assumes "x \<in> \<int>" and "\<bar>x\<bar> \<le> 2 ^ 53"
  shows "round_double x = Finite x"
proof -
  from assms(1) obtain k where k: "x = of_int k" by (auto elim: Ints_cases)
  have "(of_int \<bar>k\<bar> :: rat) \<le> of_int (2 ^ 53)" using assms(2) by (simp add: k)
  then have "\<bar>k\<bar> \<le> 2 ^ 53" by (simp only: of_int_le_iff)
  from round_double_scaled [OF this, of 0] show ?thesis by (simp add: k)
qed

text \<open>The sum of two whole numbers is exact up to \<open>2^53\<close> in magnitude.\<close>

lemma js_add_int:
  assumes "x \<in> \<int>" "y \<in> \<int>" "\<bar>x + y\<bar> \<le> 9007199254740992"
  shows "js_add (Finite x) (Finite y) = Finite (x + y)"
  using assms by (simp add: round_double_int)

subsection \<open>Generated ids\<close>

text \<open>The decimal rendering is injective and free of the separator, so two generated
  ids are equal only if both the clocks and the random suffixes are.\<close>

declare decimal.simps [simp del]













subsection \<open>The registry operations\<close>

lemma Map_get_map_of: "Map_get m k = map_of m k"
  by (induction m) auto

lemma set_Map_delete: "set (Map_delete k m) \<subseteq> set m"
  by (induction m) (auto split: if_splits)

lemma Map_delete_filter:
  "distinct (map fst m) \<Longrightarrow> Map_delete k m = filter (\<lambda>p. fst p \<noteq> k) m"
proof (induction m)
  case Nil
  then show ?case by simp
next
  case (Cons p m)
  obtain k' v' where p: "p = (k', v')" by (cases p)
  show ?case
  proof (cases "k' = k")
    case True
    with Cons.prems p have "\<forall>q \<in> set m. fst q \<noteq> k" by force
    then have "filter (\<lambda>q. fst q \<noteq> k) m = m" by (simp add: filter_id_conv)
    with True p show ?thesis by simp
  next
    case False
    with Cons p show ?thesis by simp
  qed
qed

lemma Map_set_keys:
  "map fst (Map_set k v m) = (if k \<in> fst ` set m then map fst m else map fst m @ [k])"
  by (induction m) (auto simp: image_iff split: if_splits)

lemma Map_set_vals: "set (map snd (Map_set k v m)) \<subseteq> insert v (set (map snd m))"
  by (induction m) (force split: if_splits)+

lemma Map_set_distinct_vals:
  "distinct (map snd m) \<Longrightarrow> v \<notin> snd ` set m \<Longrightarrow> distinct (map snd (Map_set k v m))"
proof (induction m)
  case Nil
  then show ?case by simp
next
  case (Cons p m)
  have "snd ` set (Map_set k v m) \<subseteq> insert v (snd ` set m)"
    using Map_set_vals [of k v m] by simp
  with Cons show ?case by (cases p) (auto simp: image_iff)
qed


lemma Map_get_Map_delete:
  "distinct (map fst m) \<Longrightarrow> Map_get (Map_delete k m) k' = (if k' = k then None else Map_get m k')"
  by (simp add: Map_delete_filter Map_get_map_of map_of_eq_None_iff image_iff)
     (induction m; auto)

lemma startWorkers_fold:
  "fold (\<lambda>i s'. s'\<lparr>workers := workers s' @ [100]\<rparr>) xs s =
     s\<lparr>workers := workers s @ replicate (length xs) 100\<rparr>"
  by (induction xs arbitrary: s) (simp_all add: replicate_app_Cons_same)

lemma startWorkers_eq:
  "startWorkers s = s\<lparr>workers := workers s @ replicate (nat (maxConcurrentTasks s)) 100\<rparr>"
  by (simp add: startWorkers_def startWorkers_fold)

lemma registry_inv_constructor: "registry_inv (constructor c)"
  by (simp add: registry_inv_def constructor_def startWorkers_eq Let_def)

lemma inflight_inv_constructor: "inflight_inv (constructor c)"
  by (simp add: inflight_inv_def constructor_def startWorkers_eq Let_def)

lemma distinct_Map_delete:
  "distinct (map fst m) \<Longrightarrow> distinct (map f (Map_delete k m)) = distinct (map f (filter (\<lambda>p. fst p \<noteq> k) m))"
  by (simp add: Map_delete_filter)

lemma registry_inv_delete:
  assumes "registry_inv s"
  shows "registry_inv (s\<lparr>tasks := Map_delete k (tasks s)\<rparr>)"
  using assms by (auto simp: registry_inv_def Map_delete_filter distinct_map_filter)

lemma inflight_inv_tasks_update:
  "inflight_inv (s\<lparr>tasks := m\<rparr>) = inflight_inv s"
  by (simp add: inflight_inv_def)

lemma set_insert_by: "set (insert_by cmp x ys) = insert x (set ys)"
  by (induction ys) auto

lemma set_sort_by: "set (sort_by cmp xs) = set xs"
  by (induction xs) (simp_all add: sort_by_def set_insert_by)

lemma getNextTask_Some:
  assumes "getNextTask s now = Some r"
  shows "r \<in> set (map snd (tasks s)) \<and> available now (obj s r)"
proof -
  let ?av = "filter (\<lambda>r. available now (obj s r)) (map snd (tasks s))"
  let ?cmp = "\<lambda>a b. compareTasks (obj s a) (obj s b)"
  from assms obtain rest where "sort_by ?cmp ?av = r # rest"
    by (auto simp: getNextTask_def Let_def split: if_splits list.splits)
  then have "r \<in> set (sort_by ?cmp ?av)" by simp
  then have "r \<in> set ?av" by (simp only: set_sort_by)
  then show ?thesis by auto
qed

lemma available_Pending: "available now t \<Longrightarrow> status t = Pending"
  by (simp add: available_def split: if_splits)

lemma engine_inv_addTask:
  assumes "engine_inv s" "addTask s nm h opts ms rnd now = Inr (i, s')"
  shows "engine_inv s'"
proof -
  from assms(2) have en: "isEnabled s" by (auto simp: addTask_def split: if_splits)
  define tid where "tid = generateTaskId ms rnd"
  from assms(2) en obtain task where
    s': "s' = s\<lparr>heap := heap s @ [task], tasks := Map_set tid (length (heap s)) (tasks s)\<rparr>"
    and st: "status task = Pending"
    by (auto simp: addTask_def Let_def tid_def)
  from assms(1) have reg: "registry_inv s" and inf: "inflight_inv s"
    by (simp_all add: engine_inv_def)
  have fresh: "length (heap s) \<notin> snd ` set (tasks s)"
    using reg by (auto simp: registry_inv_def)
  have "distinct (map fst (Map_set tid (length (heap s)) (tasks s)))"
    using reg by (auto simp: registry_inv_def Map_set_keys)
  moreover have "distinct (map snd (Map_set tid (length (heap s)) (tasks s)))"
    using reg fresh by (simp add: registry_inv_def Map_set_distinct_vals)
  moreover have "\<forall>r \<in> set (map snd (Map_set tid (length (heap s)) (tasks s))). r < Suc (length (heap s))"
  proof
    fix r assume "r \<in> set (map snd (Map_set tid (length (heap s)) (tasks s)))"
    with Map_set_vals [of tid "length (heap s)" "tasks s"]
    have "r = length (heap s) \<or> r \<in> set (map snd (tasks s))" by blast
    with reg show "r < Suc (length (heap s))"
      unfolding registry_inv_def using less_Suc_eq by blast
  qed
  ultimately have "registry_inv s'" by (simp add: registry_inv_def s')
  moreover have "inflight_inv s'"
    using inf st by (auto simp: inflight_inv_def s' nth_append less_Suc_eq)
  ultimately show ?thesis by (simp add: engine_inv_def)
qed

lemma engine_inv_cancelTask:
  assumes "engine_inv s"
  shows "engine_inv (snd (cancelTask s tid))"
  using assms registry_inv_delete [of s tid]
  by (auto simp: cancelTask_def engine_inv_def inflight_inv_tasks_update split: option.splits)

lemma clear_fold:
  "fold (\<lambda>(k, r) s'. s'\<lparr>tasks := Map_delete k (tasks s')\<rparr>) xs s =
     s\<lparr>tasks := fold (\<lambda>(k, r). Map_delete k) xs (tasks s)\<rparr>"
  by (induction xs arbitrary: s) (auto simp: case_prod_unfold)

lemma fold_delete_filter:
  "distinct (map fst m) \<Longrightarrow>
   fold (\<lambda>(k, r). Map_delete k) xs m = filter (\<lambda>p. fst p \<notin> fst ` set xs) m"
proof (induction xs arbitrary: m)
  case Nil
  then show ?case by simp
next
  case (Cons x xs)
  obtain k r where x: "x = (k, r)" by (cases x)
  have d: "distinct (map fst (Map_delete k m))"
    using Cons.prems by (simp add: Map_delete_filter distinct_map_filter)
  have "fold (\<lambda>(k, r). Map_delete k) (x # xs) m = fold (\<lambda>(k, r). Map_delete k) xs (Map_delete k m)"
    by (simp add: x)
  also have "\<dots> = filter (\<lambda>p. fst p \<notin> fst ` set xs) (Map_delete k m)"
    using Cons.IH [OF d] .
  also have "\<dots> = filter (\<lambda>p. fst p \<notin> fst ` set (x # xs)) m"
    using Cons.prems by (auto simp: Map_delete_filter x intro: filter_cong)
  finally show ?case .
qed

lemma clearCompletedTasks_tasks:
  assumes "distinct (map fst (tasks s))"
  shows "tasks (snd (clearCompletedTasks s)) =
         filter (\<lambda>(k, r). \<not> (status (obj s r) = Completed \<or> status (obj s r) = Failed)) (tasks s)"
proof -
  let ?P = "\<lambda>(k, r). status (obj s r) = Completed \<or> status (obj s r) = Failed"
  have "tasks (snd (clearCompletedTasks s)) =
        filter (\<lambda>p. fst p \<notin> fst ` set (filter ?P (tasks s))) (tasks s)"
    using assms by (simp add: clearCompletedTasks_def Let_def clear_fold fold_delete_filter)
  also have "\<dots> = filter (\<lambda>p. \<not> ?P p) (tasks s)"
  proof (rule filter_cong [OF refl])
    fix p assume p: "p \<in> set (tasks s)"
    have "fst p \<in> fst ` set (filter ?P (tasks s)) \<longleftrightarrow> ?P p"
    proof
      assume "fst p \<in> fst ` set (filter ?P (tasks s))"
      then obtain q where q: "q \<in> set (tasks s)" "?P q" "fst q = fst p" by auto
      with p assms have "q = p" by (metis eq_key_imp_eq_value prod.collapse)
      with q show "?P p" by simp
    next
      assume "?P p" with p show "fst p \<in> fst ` set (filter ?P (tasks s))" by force
    qed
    then show "(fst p \<notin> fst ` set (filter ?P (tasks s))) = (\<not> ?P p)" by simp
  qed
  finally show ?thesis by (simp add: case_prod_unfold)
qed

lemma clearCompletedTasks_rest:
  "snd (clearCompletedTasks s) = s\<lparr>tasks := tasks (snd (clearCompletedTasks s))\<rparr>"
  by (simp add: clearCompletedTasks_def Let_def clear_fold)

lemma engine_inv_clear:
  assumes "engine_inv s"
  shows "engine_inv (snd (clearCompletedTasks s))"
proof -
  from assms have d: "distinct (map fst (tasks s))" by (simp add: engine_inv_def registry_inv_def)
  have "registry_inv (s\<lparr>tasks := tasks (snd (clearCompletedTasks s))\<rparr>)"
    using assms by (auto simp: clearCompletedTasks_tasks [OF d] engine_inv_def registry_inv_def distinct_map_filter)
  moreover have "inflight_inv (s\<lparr>tasks := tasks (snd (clearCompletedTasks s))\<rparr>)"
    using assms by (simp add: inflight_inv_tasks_update engine_inv_def)
  ultimately show ?thesis
    using clearCompletedTasks_rest [of s] by (simp add: engine_inv_def)
qed

lemma engine_inv_claim:
  assumes "engine_inv s"
  shows "engine_inv (processNextTask_claim s now now')"
proof (cases "runningTasks s \<ge> maxConcurrentTasks s")
  case True
  with assms show ?thesis by (simp add: processNextTask_claim_def)
next
  case cap: False
  show ?thesis
  proof (cases "getNextTask s now")
    case None
    with assms show ?thesis by (simp add: processNextTask_claim_def)
  next
    case (Some r)
    from assms have reg: "registry_inv s" and inf: "inflight_inv s"
      by (simp_all add: engine_inv_def)
    from getNextTask_Some [OF Some] have rin: "r \<in> set (map snd (tasks s))"
      and pend: "status (heap s ! r) = Pending"
      by (auto dest: available_Pending simp: obj_def)
    from rin reg have rlt: "r < length (heap s)" by (auto simp: registry_inv_def)
    from pend inf have rnot: "r \<notin> set (inflight s)" by (auto simp: inflight_inv_def)
    define s' where "s' = processNextTask_claim s now now'"
    have s': "s' = s\<lparr>runningTasks := runningTasks s + 1,
                  heap := (heap s)[r := (obj s r)\<lparr>status := Running,
                                                attempts := attempts (obj s r) + 1,
                                                lastAttempt := Some now'\<rparr>],
                  inflight := inflight s @ [r]\<rparr>"
      using cap Some by (simp add: s'_def processNextTask_claim_def)
    have "registry_inv s'" using reg by (simp add: registry_inv_def s')
    moreover have "inflight_inv s'"
    proof -
      have h: "heap s' = (heap s)[r := (obj s r)\<lparr>status := Running,
                 attempts := attempts (obj s r) + 1, lastAttempt := Some now'\<rparr>]"
        and i: "inflight s' = inflight s @ [r]"
        and c: "runningTasks s' = runningTasks s + 1"
        and m: "maxConcurrentTasks s' = maxConcurrentTasks s"
        by (simp_all add: s')
      from inf have d: "distinct (inflight s)"
        and run: "\<And>q. q \<in> set (inflight s) \<Longrightarrow> q < length (heap s) \<and> status (heap s ! q) = Running"
        and fly: "\<And>q. q < length (heap s) \<Longrightarrow> status (heap s ! q) = Running \<Longrightarrow> q \<in> set (inflight s)"
        and cnt: "runningTasks s = int (length (inflight s))"
        unfolding inflight_inv_def by blast+
      have "distinct (inflight s')" using d rnot by (simp add: i)
      moreover have "\<forall>q \<in> set (inflight s'). q < length (heap s') \<and> status (heap s' ! q) = Running"
      proof
        fix q assume "q \<in> set (inflight s')"
        then consider "q = r" | "q \<noteq> r" "q \<in> set (inflight s)" by (auto simp: i)
        then show "q < length (heap s') \<and> status (heap s' ! q) = Running"
        proof cases
          case 1 with rlt show ?thesis by (simp add: h)
        next
          case 2 with run [of q] show ?thesis by (simp add: h)
        qed
      qed
      moreover have "\<forall>q < length (heap s'). status (heap s' ! q) = Running \<longrightarrow> q \<in> set (inflight s')"
      proof (intro allI impI)
        fix q assume q: "q < length (heap s')" "status (heap s' ! q) = Running"
        show "q \<in> set (inflight s')"
        proof (cases "q = r")
          case True then show ?thesis by (simp add: i)
        next
          case False
          with q have "q < length (heap s)" "status (heap s ! q) = Running" by (simp_all add: h)
          then show ?thesis using fly [of q] by (simp add: i)
        qed
      qed
      moreover have "runningTasks s' = int (length (inflight s'))"
        using cnt by (simp add: c i)
      moreover have "runningTasks s' \<le> maxConcurrentTasks s'"
        using cap by (simp add: c m)
      ultimately show ?thesis unfolding inflight_inv_def by blast
    qed
    ultimately show ?thesis by (simp add: engine_inv_def s'_def)
  qed
qed

lemma engine_inv_settle:
  assumes "engine_inv s" "r \<in> set (inflight s)"
  shows "engine_inv (processNextTask_settle s r out now)"
proof -
  from assms have reg: "registry_inv s" and inf: "inflight_inv s"
    by (simp_all add: engine_inv_def)
  from inf assms(2) have rlt: "r < length (heap s)" by (simp add: inflight_inv_def)
  define s' where "s' = processNextTask_settle s r out now"
  have "\<exists>t pt. s' = s\<lparr>heap := (heap s)[r := t], purgeTimers := pt,
      runningTasks := runningTasks s - 1, inflight := remove1 r (inflight s)\<rparr> \<and>
      status t \<noteq> Running"
  proof (cases out)
    case Resolved
    then show ?thesis
      by (intro exI [of _ "(obj s r)\<lparr>status := Completed\<rparr>"]
                exI [of _ "purgeTimers s @ [(60000, taskId (obj s r))]"])
         (simp add: s'_def processNextTask_settle_def Let_def)
  next
    case (Rejected e)
    show ?thesis
    proof (cases "js_less (Finite (of_int (attempts (obj s r)))) (retries (options (obj s r)))")
      case True
      with Rejected show ?thesis
        by (intro exI [of _ "(obj s r)\<lparr>status := Pending,
               nextRetry := Some (new_Date (js_add (Finite (of_int now))
               (retryDelay (options (obj s r)))))\<rparr>"]
                exI [of _ "purgeTimers s"])
           (simp add: s'_def processNextTask_settle_def Let_def)
    next
      case False
      with Rejected show ?thesis
        by (intro exI [of _ "(obj s r)\<lparr>status := Failed\<rparr>"] exI [of _ "purgeTimers s"])
           (simp add: s'_def processNextTask_settle_def Let_def)
    qed
  qed
  then obtain t pt where s': "s' = s\<lparr>heap := (heap s)[r := t], purgeTimers := pt,
      runningTasks := runningTasks s - 1, inflight := remove1 r (inflight s)\<rparr>"
    and st: "status t \<noteq> Running"
    by blast
  have len: "length (remove1 r (inflight s)) = length (inflight s) - 1"
    using assms(2) by (simp add: length_remove1)
  have len': "int (length (remove1 r (inflight s))) = int (length (inflight s)) - 1"
  proof -
    from assms(2) have "1 \<le> length (inflight s)" by (cases "inflight s") auto
    then have "int (length (inflight s) - 1) = int (length (inflight s)) - 1"
      by linarith
    with assms(2) show ?thesis by (simp add: length_remove1)
  qed
  from inf have d: "distinct (inflight s)"
    and run: "\<And>q. q \<in> set (inflight s) \<Longrightarrow> q < length (heap s) \<and> status (heap s ! q) = Running"
    and fly: "\<And>q. q < length (heap s) \<Longrightarrow> status (heap s ! q) = Running \<Longrightarrow> q \<in> set (inflight s)"
    and cnt: "runningTasks s = int (length (inflight s))"
    and cap: "runningTasks s \<le> maxConcurrentTasks s"
    unfolding inflight_inv_def by blast+
  have h: "heap s' = (heap s)[r := t]"
    and i: "inflight s' = remove1 r (inflight s)"
    and c: "runningTasks s' = runningTasks s - 1"
    and m: "maxConcurrentTasks s' = maxConcurrentTasks s"
    by (simp_all add: s')
  have "registry_inv s'" using reg by (simp add: registry_inv_def s')
  moreover have "inflight_inv s'"
  proof -
    have "distinct (inflight s')" using d by (simp add: i)
    moreover have "\<forall>q \<in> set (inflight s'). q < length (heap s') \<and> status (heap s' ! q) = Running"
    proof
      fix q assume "q \<in> set (inflight s')"
      with d have "q \<in> set (inflight s)" "q \<noteq> r" by (auto simp: i)
      with run [of q] show "q < length (heap s') \<and> status (heap s' ! q) = Running"
        by (simp add: h)
    qed
    moreover have "\<forall>q < length (heap s'). status (heap s' ! q) = Running \<longrightarrow> q \<in> set (inflight s')"
    proof (intro allI impI)
      fix q assume q: "q < length (heap s')" "status (heap s' ! q) = Running"
      have "q \<noteq> r" using q st rlt by (auto simp: h)
      with q have "q < length (heap s)" "status (heap s ! q) = Running" by (simp_all add: h)
      then have "q \<in> set (inflight s)" by (rule fly)
      with \<open>q \<noteq> r\<close> show "q \<in> set (inflight s')" by (simp add: i)
    qed
    moreover have "runningTasks s' = int (length (inflight s'))"
      using cnt len' by (simp add: c i)
    moreover have "runningTasks s' \<le> maxConcurrentTasks s'"
      using cap by (simp add: c m)
    ultimately show ?thesis unfolding inflight_inv_def by blast
  qed
  ultimately show ?thesis by (simp add: engine_inv_def s'_def)
qed

lemma engine_inv_purgeTimers_update: "engine_inv (s\<lparr>purgeTimers := pt\<rparr>) = engine_inv s"
  by (simp add: engine_inv_def registry_inv_def inflight_inv_def)

lemma engine_inv_purge:
  assumes "engine_inv s"
  shows "engine_inv (purgeTimer_fire s k)"
proof -
  have eq: "purgeTimer_fire s k =
      (s\<lparr>tasks := Map_delete (snd (purgeTimers s ! k)) (tasks s)\<rparr>)
        \<lparr>purgeTimers := take k (purgeTimers s) @ drop (Suc k) (purgeTimers s)\<rparr>"
    by (simp add: purgeTimer_fire_def)
  from assms have "engine_inv (s\<lparr>tasks := Map_delete (snd (purgeTimers s ! k)) (tasks s)\<rparr>)"
    using registry_inv_delete [of s] by (simp add: engine_inv_def inflight_inv_tasks_update)
  then show ?thesis
    unfolding eq by (simp only: engine_inv_purgeTimers_update)
qed

lemma engine_inv_destroy: "engine_inv (onModuleDestroy s) = engine_inv s"
  by (simp add: engine_inv_def registry_inv_def inflight_inv_def onModuleDestroy_def)

lemma engine_inv_step:
  assumes "engine_inv s"
  shows "engine_inv (step s e)"
proof (cases e)
  case (AddTask nm h opts ms rnd now)
  with assms show ?thesis
    by (auto split: sum.splits dest: engine_inv_addTask)
next
  case (CancelTask tid)
  with assms show ?thesis by (simp add: engine_inv_cancelTask)
next
  case ClearCompletedTasks
  with assms show ?thesis by (simp add: engine_inv_clear)
next
  case (Tick now now')
  with assms show ?thesis by (simp add: worker_tick_def engine_inv_claim)
next
  case (Settle r out now)
  with assms show ?thesis by (simp add: engine_inv_settle)
next
  case (PurgeTimer k)
  with assms show ?thesis by (simp add: engine_inv_purge)
next
  case OnModuleDestroy
  with assms show ?thesis by (simp add: engine_inv_destroy)
qed

lemma reachable_engine_inv: "reachable s \<Longrightarrow> engine_inv s"
proof (induction rule: reachable.induct)
  case (init appConfig)
  show ?case
    by (simp add: engine_inv_def registry_inv_constructor inflight_inv_constructor)
next
  case (after s e)
  then show ?case by (simp add: engine_inv_step)
qed

subsection \<open>Execution wrapper\<close>

lemma invocations_wrapper_step: "invocations (wrapper_step w e) = invocations w"
  by (cases "(w, e)" rule: wrapper_step.cases) (auto split: option.splits)

lemma invocations_wrapper_run: "invocations (wrapper_run w evs) = invocations w"
  by (induction evs arbitrary: w) (simp_all add: wrapper_run_def invocations_wrapper_step)

lemma settled_wrapper_step: "result w = Some x \<Longrightarrow> result (wrapper_step w e) = Some x"
  by (cases "(w, e)" rule: wrapper_step.cases) (auto simp: settle_once_def split: option.splits)

lemma settled_wrapper_run: "result w = Some x \<Longrightarrow> result (wrapper_run w evs) = Some x"
  by (induction evs arbitrary: w) (simp_all add: wrapper_run_def settled_wrapper_step)

lemma cleared_wrapper_step: "timer w = None \<Longrightarrow> timer (wrapper_step w e) = None"
  by (cases "(w, e)" rule: wrapper_step.cases) (auto split: option.splits)

lemma cleared_wrapper_run: "timer w = None \<Longrightarrow> timer (wrapper_run w evs) = None"
  by (induction evs arbitrary: w) (simp_all add: wrapper_run_def cleared_wrapper_step)

text \<open>
  When the handler returns its promise, one call of the execution wrapper invokes it
  exactly once, whatever happens afterwards. If the promise settles first, its value or
  its error is the outcome and the timer is cleared. If the timer fires first, the outcome
  is the timeout error for the configured duration, also when the promise settles later:
  that settlement is accepted and ignored, and nothing aborts the operation.
\<close>

lemma executeWithTimeout_race:
  "invocations (wrapper_run (executeWithTimeout Returned timeoutMs) evs) = 1 \<and>
   result (wrapper_run (executeWithTimeout Returned timeoutMs) (HandlerSettles x # evs)) =
     Some (settlement_outcome x) \<and>
   timer (wrapper_run (executeWithTimeout Returned timeoutMs) (HandlerSettles x # evs)) = None \<and>
   result (wrapper_run (executeWithTimeout Returned timeoutMs) (TimerFires # evs)) =
     Some (Inl (Timeout timeoutMs)) \<and>
   result (wrapper_run (executeWithTimeout Returned timeoutMs) (TimerFires # HandlerSettles x # evs)) =
     Some (Inl (Timeout timeoutMs)) \<and>
   invocations (wrapper_run (executeWithTimeout Returned timeoutMs) (TimerFires # HandlerSettles x # evs)) = 1"
proof -
  let ?w = "executeWithTimeout Returned timeoutMs :: 'a wrapper"
  have w: "?w = \<lparr>invocations = 1, timer = Some timeoutMs, result = None\<rparr>"
    by (simp add: executeWithTimeout_def)
  have a: "result (wrapper_step ?w (HandlerSettles x)) = Some (settlement_outcome x)"
    and b: "timer (wrapper_step ?w (HandlerSettles x)) = None"
    by (cases x; simp add: w settle_once_def settlement_outcome_def)+
  have c: "result (wrapper_step ?w TimerFires) = Some (Inl (Timeout timeoutMs))"
    by (simp add: w settle_once_def)
  have run_Cons: "\<And>w e es. wrapper_run w (e # es) = wrapper_run (wrapper_step w e) es"
    by (simp add: wrapper_run_def)
  have i: "invocations ?w = 1" by (simp add: w)
  show ?thesis
    using settled_wrapper_run [OF a, of evs] cleared_wrapper_run [OF b, of evs]
      settled_wrapper_run [OF c, of evs] settled_wrapper_run [OF c, of "HandlerSettles x # evs"]
    by (simp only: invocations_wrapper_run i run_Cons [symmetric] simp_thms)
qed

text \<open>A handler that throws before returning a promise rejects the wrapper's promise
  with that error at once; the armed timer then fires later without effect.\<close>

lemma executeWithTimeout_sync_throw:
  "result (wrapper_run (executeWithTimeout (Threw e) timeoutMs) evs) = Some (Inl (HandlerFailure e))"
  by (rule settled_wrapper_run) (simp add: executeWithTimeout_def settle_once_def)

text \<open>
  Claim C7 says that when the operation ends first, its result or error is the outcome and
  the timer is cleared. Both callbacks on the handler's promise clear the timer, but a
  handler that throws at the call never reaches them: for a handler throwing "boom" under
  a timeout of 1000 ms the wrapper has invoked the operation once and its outcome is that
  error, yet the timer is still armed; it is disarmed only by firing, and its rejection is
  then ignored.
\<close>

theorem C7_sync_throw_leaves_timer_armed:
  "invocations (executeWithTimeout (Threw ''boom'') (Finite 1000) :: unit wrapper) = 1 \<and>
   result (executeWithTimeout (Threw ''boom'') (Finite 1000) :: unit wrapper) =
     Some (Inl (HandlerFailure ''boom'')) \<and>
   timer (executeWithTimeout (Threw ''boom'') (Finite 1000) :: unit wrapper) =
     Some (Finite 1000) \<and>
   timer (wrapper_run (executeWithTimeout (Threw ''boom'') (Finite 1000) :: unit wrapper)
            [TimerFires]) = None \<and>
   result (wrapper_run (executeWithTimeout (Threw ''boom'') (Finite 1000) :: unit wrapper)
             [TimerFires]) = Some (Inl (HandlerFailure ''boom''))"
  by (simp add: executeWithTimeout_def wrapper_run_def settle_once_def)

subsection \<open>Construction and settings\<close>






text \<open>
  Claim C8, as stated, fails: with no configuration at all the engine has a maximum
  concurrency of 5, 3 default retries, a default retry delay of 5000 ms and a default
  timeout of 30000 ms, and two configurations that differ in every field give engines
  that differ in the enabled flag and the started workers only.
\<close>

theorem C8_settings_without_configuration:
  "maxConcurrentTasks (constructor None :: unit engine) = 5 \<and>
   defaultRetries (constructor None :: unit engine) = Finite 3 \<and>
   defaultRetryDelay (constructor None :: unit engine) = Finite 5000 \<and>
   defaultTimeout (constructor None :: unit engine) = Finite 30000 \<and>
   (constructor config_on :: unit engine) =
     \<lparr>heap = [], tasks = [], workers = [100, 100, 100, 100, 100],
      maxConcurrentTasks = 5, defaultRetries = Finite 3,
      defaultRetryDelay = Finite 5000, defaultTimeout = Finite 30000, isEnabled = True, isShuttingDown = False,
      runningTasks = 0, inflight = [], purgeTimers = []\<rparr> \<and>
   (constructor config_off :: unit engine) =
     \<lparr>heap = [], tasks = [], workers = [],
      maxConcurrentTasks = 5, defaultRetries = Finite 3,
      defaultRetryDelay = Finite 5000, defaultTimeout = Finite 30000, isEnabled = False, isShuttingDown = False,
      runningTasks = 0, inflight = [], purgeTimers = []\<rparr>"
  by (simp add: constructor_def startWorkers_eq nullish_def config_on_def config_off_def
      numeral_eq_Suc)

text \<open>
  Claim C8, amended. The constructor reads one thing from the configuration, the feature
  flag \<open>app.features.asyncTasksEnabled\<close> (off when missing). Maximum concurrency (5),
  default retry count (3), default retry delay (5000 ms), default timeout (30000 ms), the
  poll period of the workers (100 ms, five workers when enabled) and the retention of a
  completed record (60000 ms) are constants of the code.
\<close>

theorem C8_only_flag_configured:
  "isEnabled (constructor appConfig) = asyncTasksFlag appConfig \<and>
   maxConcurrentTasks (constructor appConfig) = 5 \<and>
   defaultRetries (constructor appConfig) = Finite 3 \<and>
   defaultRetryDelay (constructor appConfig) = Finite 5000 \<and>
   defaultTimeout (constructor appConfig) = Finite 30000 \<and>
   workers (constructor appConfig) =
     (if asyncTasksFlag appConfig then replicate 5 100 else []) \<and>
   purgeTimers (processNextTask_settle s r Resolved now) =
     purgeTimers s @ [(60000, taskId (obj s r))]"
  by (simp add: constructor_def startWorkers_eq nullish_def asyncTasksFlag_def
      processNextTask_settle_def Let_def split: option.splits)

subsection \<open>Bounded concurrency\<close>

lemma reachable_run: "reachable s \<Longrightarrow> reachable (run s evs)"
  by (induction evs arbitrary: s) (simp_all add: run_def reachable.after)

lemma task_values_refs: "task_values s = map (obj s) (map snd (tasks s))"
  by (simp add: task_values_def case_prod_unfold)



lemma claim_cases:
  "(processNextTask_claim s now now' = s \<and>
      (maxConcurrentTasks s \<le> runningTasks s \<or> getNextTask s now = None)) \<or>
   (\<exists>r. runningTasks s < maxConcurrentTasks s \<and> getNextTask s now = Some r \<and>
        processNextTask_claim s now now' =
          s\<lparr>runningTasks := runningTasks s + 1,
            heap := (heap s)[r := (obj s r)\<lparr>status := Running,
                                          attempts := attempts (obj s r) + 1,
                                          lastAttempt := Some now'\<rparr>],
            inflight := inflight s @ [r]\<rparr>)"
  by (cases "getNextTask s now") (auto simp: processNextTask_claim_def)


lemmas number_eval =
  scheduledTime_def new_Date_def toInteger_def date_le_def date_greater_def round_double_int

lemmas engine_eval =
  number_eval generateTaskId_def number_to_string_def decimal.simps digit_char_def
  run_def constructor_def startWorkers_eq nullish_def addTask_def worker_tick_def
  processNextTask_claim_def processNextTask_settle_def getNextTask_def available_def
  sort_by_def compareTasks_def priorityOrder_def obj_def task_values_def getQueueStats_def
  cancelTask_def getTaskStatus_def purgeTimer_fire_def onModuleDestroy_def
  config_on_def config_off_def no_options_def Let_def

lemma one_pending_eq:
  "one_pending =
     \<lparr>heap = [\<lparr>taskId = ''task_0_a'', name = ''job'', handler = ''h'',
               options = \<lparr>delay = Finite 0, priority = Normal, retries = Finite 3,
                          retryDelay = Finite 5000, timeout = Finite 30000\<rparr>,
               createdAt = 0, attempts = 0, lastAttempt = None, nextRetry = None,
               status = Pending\<rparr>],
      tasks = [(''task_0_a'', 0)], workers = [100, 100, 100, 100, 100],
      maxConcurrentTasks = 5, defaultRetries = Finite 3,
      defaultRetryDelay = Finite 5000, defaultTimeout = Finite 30000, isEnabled = True, isShuttingDown = False,
      runningTasks = 0, inflight = [], purgeTimers = []\<rparr>"
  by (simp add: one_pending_def engine_eval numeral_eq_Suc)

lemma reachable_one_pending: "reachable one_pending"
  unfolding one_pending_def by (intro reachable_run reachable.init)


subsection \<open>Status transitions\<close>

lemma heap_addTask:
  "addTask s nm h opts ms rnd now = Inr (i, s') \<Longrightarrow>
     \<exists>task. heap s' = heap s @ [task] \<and> status task = Pending \<and> attempts task = 0"
  by (auto simp: addTask_def Let_def split: if_splits)

lemma heap_clear: "heap (snd (clearCompletedTasks s)) = heap s"
proof -
  have "heap (s\<lparr>tasks := tasks (snd (clearCompletedTasks s))\<rparr>) = heap s" by simp
  then show ?thesis by (simp add: clearCompletedTasks_rest [symmetric])
qed

lemma heap_cancel: "heap (snd (cancelTask s tid)) = heap s"
  by (simp add: cancelTask_def split: option.splits)

lemma settle_cases:
  "\<exists>t. heap (processNextTask_settle s r out now) = (heap s)[r := t] \<and>
       (status t = Completed \<or> status t = Pending \<or> status t = Failed)"
proof (cases out)
  case Resolved
  then show ?thesis
    by (intro exI [of _ "(obj s r)\<lparr>status := Completed\<rparr>"])
       (simp add: processNextTask_settle_def Let_def)
next
  case (Rejected e)
  show ?thesis
  proof (cases "js_less (Finite (of_int (attempts (obj s r)))) (retries (options (obj s r)))")
    case True
    with Rejected show ?thesis
      by (intro exI [of _ "(obj s r)\<lparr>status := Pending,
             nextRetry := Some (new_Date (js_add (Finite (of_int now))
               (retryDelay (options (obj s r)))))\<rparr>"])
         (simp add: processNextTask_settle_def Let_def)
  next
    case False
    with Rejected show ?thesis
      by (intro exI [of _ "(obj s r)\<lparr>status := Failed\<rparr>"])
         (simp add: processNextTask_settle_def Let_def)
  qed
qed

lemma step_status:
  assumes inv: "engine_inv s" and r: "r < length (heap s)"
  shows "status (obj (step s e) r) = status (obj s r) \<or>
         allowed_transition (status (obj s r)) (status (obj (step s e) r))"
proof (cases e)
  case (AddTask nm h opts ms rnd now)
  show ?thesis
  proof (cases "addTask s nm h opts ms rnd now")
    case (Inl err)
    with AddTask show ?thesis by simp
  next
    case (Inr p)
    obtain i s' where p: "p = (i, s')" by (cases p)
    from heap_addTask [OF Inr [unfolded p]] r have "heap s' ! r = heap s ! r"
      by (auto simp: nth_append)
    with AddTask Inr p show ?thesis by (simp add: obj_def)
  qed
next
  case (CancelTask tid)
  then show ?thesis by (simp add: obj_def heap_cancel)
next
  case ClearCompletedTasks
  then show ?thesis by (simp add: obj_def heap_clear)
next
  case (Tick now now')
  from claim_cases [of s now now'] show ?thesis
  proof
    assume "processNextTask_claim s now now' = s \<and>
      (maxConcurrentTasks s \<le> runningTasks s \<or> getNextTask s now = None)"
    with Tick show ?thesis by (simp add: worker_tick_def)
  next
    assume "\<exists>q. runningTasks s < maxConcurrentTasks s \<and> getNextTask s now = Some q \<and>
        processNextTask_claim s now now' =
          s\<lparr>runningTasks := runningTasks s + 1,
            heap := (heap s)[q := (obj s q)\<lparr>status := Running,
                                          attempts := attempts (obj s q) + 1,
                                          lastAttempt := Some now'\<rparr>],
            inflight := inflight s @ [q]\<rparr>"
    then obtain q where sel: "getNextTask s now = Some q"
      and eq: "processNextTask_claim s now now' =
          s\<lparr>runningTasks := runningTasks s + 1,
            heap := (heap s)[q := (obj s q)\<lparr>status := Running,
                                          attempts := attempts (obj s q) + 1,
                                          lastAttempt := Some now'\<rparr>],
            inflight := inflight s @ [q]\<rparr>"
      by blast
    from getNextTask_Some [OF sel] have pend: "status (obj s q) = Pending"
      by (auto dest: available_Pending)
    show ?thesis
    proof (cases "workers s = [] \<or> isShuttingDown s")
      case True
      with Tick show ?thesis by (auto simp: worker_tick_def)
    next
      case False
      with Tick have st: "step s e = processNextTask_claim s now now'"
        by (simp add: worker_tick_def)
      show ?thesis
      proof (cases "r = q")
        case True
        with r pend show ?thesis
          by (simp add: st eq obj_def allowed_transition_def)
      next
        case False
        then show ?thesis by (simp add: st eq obj_def)
      qed
    qed
  qed
next
  case (Settle q out now)
  show ?thesis
  proof (cases "q \<in> set (inflight s)")
    case False
    with Settle show ?thesis by simp
  next
    case True
    with Settle have st: "step s e = processNextTask_settle s q out now" by simp
    from inv True have run: "status (heap s ! q) = Running"
      unfolding engine_inv_def inflight_inv_def by blast
    from settle_cases [of s q out now] obtain t where
      h: "heap (processNextTask_settle s q out now) = (heap s)[q := t]"
      and t: "status t = Completed \<or> status t = Pending \<or> status t = Failed"
      by blast
    show ?thesis
    proof (cases "r = q")
      case True
      with r run t show ?thesis
        by (auto simp: st h obj_def allowed_transition_def)
    next
      case False
      then show ?thesis by (simp add: st h obj_def)
    qed
  qed
next
  case (PurgeTimer k)
  then show ?thesis by (simp add: obj_def purgeTimer_fire_def)
next
  case OnModuleDestroy
  then show ?thesis by (simp add: obj_def onModuleDestroy_def)
qed

lemma step_heap_grows:
  "length (heap s) \<le> length (heap (step s e)) \<and>
   (\<forall>r. length (heap s) \<le> r \<and> r < length (heap (step s e)) \<longrightarrow>
        status (obj (step s e) r) = Pending)"
proof (cases e)
  case (AddTask nm h opts ms rnd now)
  show ?thesis
  proof (cases "addTask s nm h opts ms rnd now")
    case (Inl err)
    with AddTask show ?thesis by auto
  next
    case (Inr p)
    obtain i s' where p: "p = (i, s')" by (cases p)
    from heap_addTask [OF Inr [unfolded p]] obtain task where
      "heap s' = heap s @ [task]" "status task = Pending" by blast
    with AddTask Inr p show ?thesis by (auto simp: obj_def nth_append less_Suc_eq)
  qed
next
  case (CancelTask tid)
  then show ?thesis by (auto simp: heap_cancel)
next
  case ClearCompletedTasks
  then show ?thesis by (auto simp: heap_clear)
next
  case (Tick now now')
  from claim_cases [of s now now'] have "length (heap (processNextTask_claim s now now')) = length (heap s)"
    by auto
  with Tick show ?thesis by (auto simp: worker_tick_def)
next
  case (Settle q out now)
  from settle_cases [of s q out now] have "length (heap (processNextTask_settle s q out now)) = length (heap s)"
    by auto
  with Settle show ?thesis by auto
next
  case (PurgeTimer k)
  then show ?thesis by (auto simp: purgeTimer_fire_def)
next
  case OnModuleDestroy
  then show ?thesis by (auto simp: onModuleDestroy_def)
qed

text \<open>
  Claim C9. Every step of the engine from a reachable state (a call of the API, a poll, the
  outcome of an attempt, a purge timer, shutdown) leaves the status of every existing task
  object as it is or moves it along pending to running, running to completed, running to
  pending or running to failed; no object disappears from the store, and an object
  created by the step starts as pending.
\<close>

theorem C9_status_transitions:
  assumes "reachable s"
  shows "length (heap s) \<le> length (heap (step s e)) \<and>
         (\<forall>r < length (heap s).
            status (obj (step s e) r) = status (obj s r) \<or>
            allowed_transition (status (obj s r)) (status (obj (step s e) r))) \<and>
         (\<forall>r. length (heap s) \<le> r \<and> r < length (heap (step s e)) \<longrightarrow>
            status (obj (step s e) r) = Pending)"
  using step_status [OF reachable_engine_inv [OF assms]] step_heap_grows [of s e] by blast

text \<open>Witness for C9: polling the engine that holds one pending task claims it.\<close>

theorem C9_status_transitions_witness:
  "reachable one_pending \<and>
   status (obj one_pending 0) = Pending \<and>
   status (obj (step one_pending (Tick 100 101)) 0) = Running \<and>
   allowed_transition Pending Running \<and>
   length (heap (step one_pending (Tick 100 101))) = 1"
proof -
  have a: "status (obj one_pending 0) = Pending" "length (heap one_pending) = 1"
    by (simp_all add: one_pending_eq obj_def)
  have b: "status (obj (step one_pending (Tick 100 101)) 0) = Running"
    by (simp add: one_pending_eq engine_eval)
  have c: "length (heap (step one_pending (Tick 100 101))) \<le> 1"
    by (simp add: one_pending_eq engine_eval)
  show ?thesis
    using C9_status_transitions [OF reachable_one_pending, of "Tick 100 101"] a b c
      reachable_one_pending
    by auto
qed

subsection \<open>Eligibility selector\<close>


























subsection \<open>Admission\<close>



lemma Map_get_filter:
  "distinct (map fst m) \<Longrightarrow>
   Map_get (filter P m) k =
     (case Map_get m k of None \<Rightarrow> None | Some v \<Rightarrow> if P (k, v) then Some v else None)"
proof (induction m)
  case Nil
  then show ?case by simp
next
  case (Cons p m)
  obtain k' v' where p: "p = (k', v')" by (cases p)
  from Cons.prems p have notin: "k' \<notin> fst ` set m" and d: "distinct (map fst m)" by auto
  show ?case
  proof (cases "k' = k")
    case True
    from notin True have "Map_get (filter P m) k = None"
      by (auto simp: Map_get_map_of map_of_eq_None_iff)
    with True p show ?thesis by simp
  next
    case False
    with Cons.IH [OF d] p show ?thesis by simp
  qed
qed





subsection \<open>Bulk clear\<close>

lemma mixed_eq:
  "mixed =
     \<lparr>heap = [\<lparr>taskId = ''task_0_a'', name = ''a'', handler = ''h'',
               options = \<lparr>delay = Finite 0, priority = Normal, retries = Finite 0,
                          retryDelay = Finite 5000, timeout = Finite 30000\<rparr>,
               createdAt = 0, attempts = 1, lastAttempt = Some 100, nextRetry = None,
               status = Failed\<rparr>,
              \<lparr>taskId = ''task_1_b'', name = ''b'', handler = ''h'',
               options = \<lparr>delay = Finite 0, priority = Normal, retries = Finite 3,
                          retryDelay = Finite 5000, timeout = Finite 30000\<rparr>,
               createdAt = 1, attempts = 1, lastAttempt = Some 100, nextRetry = None,
               status = Completed\<rparr>,
              \<lparr>taskId = ''task_2_c'', name = ''c'', handler = ''h'',
               options = \<lparr>delay = Finite 0, priority = Normal, retries = Finite 3,
                          retryDelay = Finite 5000, timeout = Finite 30000\<rparr>,
               createdAt = 2, attempts = 1, lastAttempt = Some 100, nextRetry = None,
               status = Running\<rparr>,
              \<lparr>taskId = ''task_3_d'', name = ''d'', handler = ''h'',
               options = \<lparr>delay = Finite 100000, priority = Normal, retries = Finite 3,
                          retryDelay = Finite 5000, timeout = Finite 30000\<rparr>,
               createdAt = 3, attempts = 0, lastAttempt = None, nextRetry = None,
               status = Pending\<rparr>],
      tasks = [(''task_0_a'', 0), (''task_1_b'', 1), (''task_2_c'', 2), (''task_3_d'', 3)],
      workers = [100, 100, 100, 100, 100],
      maxConcurrentTasks = 5, defaultRetries = Finite 3,
      defaultRetryDelay = Finite 5000, defaultTimeout = Finite 30000, isEnabled = True, isShuttingDown = False,
      runningTasks = 1, inflight = [2], purgeTimers = [(60000, ''task_1_b'')]\<rparr>"
  by (simp add: mixed_def mixed_events_def engine_eval numeral_eq_Suc)

lemma reachable_mixed: "reachable mixed"
  unfolding mixed_def by (intro reachable_run reachable.init)

lemma length_filter_disj:
  "(\<forall>x \<in> set xs. \<not> (P x \<and> Q x)) \<Longrightarrow>
   length (filter (\<lambda>x. P x \<or> Q x) xs) = length (filter P xs) + length (filter Q xs)"
  by (induction xs) auto

text \<open>
  Claim C6. In a reachable state \<open>clearCompletedTasks\<close> keeps exactly the entries whose
  record is neither completed nor failed, in their order, and returns the number of removed
  entries, which is the completed count plus the failed count. No record is modified: a
  status query afterwards answers absent for a record that was completed or failed and
  answers as before for every other id; the pending and running counts are unchanged.
\<close>

theorem C6_clearCompletedTasks:
  assumes "reachable s"
  shows "tasks (snd (clearCompletedTasks s)) = filter (\<lambda>p. \<not> finished s p) (tasks s) \<and>
         fst (clearCompletedTasks s) = length (filter (finished s) (tasks s)) \<and>
         fst (clearCompletedTasks s) = completed (getQueueStats s) + failed (getQueueStats s) \<and>
         heap (snd (clearCompletedTasks s)) = heap s \<and>
         (\<forall>k. getTaskStatus (snd (clearCompletedTasks s)) k =
            (case getTaskStatus s k of
               None \<Rightarrow> None
             | Some t \<Rightarrow> if status t = Completed \<or> status t = Failed then None else Some t)) \<and>
         pending (getQueueStats (snd (clearCompletedTasks s))) = pending (getQueueStats s) \<and>
         running (getQueueStats (snd (clearCompletedTasks s))) = running (getQueueStats s) \<and>
         completed (getQueueStats (snd (clearCompletedTasks s))) = 0 \<and>
         failed (getQueueStats (snd (clearCompletedTasks s))) = 0"
proof -
  let ?s' = "snd (clearCompletedTasks s)"
  from assms have inv: "engine_inv s" by (rule reachable_engine_inv)
  then have d: "distinct (map fst (tasks s))" by (simp add: engine_inv_def registry_inv_def)
  have fin: "(\<lambda>(k, r). status (obj s r) = Completed \<or> status (obj s r) = Failed) = finished s"
    by (auto simp: finished_def)
  have nfin: "(\<lambda>(k, r). \<not> (status (obj s r) = Completed \<or> status (obj s r) = Failed)) =
      (\<lambda>p. \<not> finished s p)"
    by (auto simp: finished_def)
  have t': "tasks ?s' = filter (\<lambda>p. \<not> finished s p) (tasks s)"
    using clearCompletedTasks_tasks [OF d] by (simp only: nfin)
  have n: "fst (clearCompletedTasks s) = length (filter (finished s) (tasks s))"
    by (simp add: clearCompletedTasks_def Let_def fin)
  have h': "heap ?s' = heap s" by (rule heap_clear)
  have o': "obj ?s' = obj s" by (simp add: obj_def fun_eq_iff h')
  have vals: "task_values ?s' = map (obj s) (map snd (filter (\<lambda>p. \<not> finished s p) (tasks s)))"
    by (simp add: task_values_refs t' o')
  have count: "length (filter P (task_values ?s')) =
      length (filter (\<lambda>p. \<not> finished s p \<and> P (obj s (snd p))) (tasks s))" for P
    by (simp add: vals filter_map comp_def)
  have count0: "length (filter P (task_values s)) =
      length (filter (\<lambda>p. P (obj s (snd p))) (tasks s))" for P
    by (simp add: task_values_refs filter_map comp_def)
  have sum: "fst (clearCompletedTasks s) = completed (getQueueStats s) + failed (getQueueStats s)"
  proof -
    have "length (filter (finished s) (tasks s)) =
        length (filter (\<lambda>p. status (obj s (snd p)) = Completed) (tasks s)) +
        length (filter (\<lambda>p. status (obj s (snd p)) = Failed) (tasks s))"
      unfolding finished_def by (rule length_filter_disj) simp
    then show ?thesis by (simp add: n getQueueStats_def Let_def count0)
  qed
  have get: "getTaskStatus ?s' k =
      (case getTaskStatus s k of
         None \<Rightarrow> None
       | Some t \<Rightarrow> if status t = Completed \<or> status t = Failed then None else Some t)" for k
    by (cases "Map_get (tasks s) k")
       (auto simp: getTaskStatus_def t' o' Map_get_filter [OF d] finished_def)
  have pend: "pending (getQueueStats ?s') = pending (getQueueStats s)"
    by (simp add: getQueueStats_def Let_def count count0 finished_def)
       (rule arg_cong [where f = length], rule filter_cong, auto)
  have run: "running (getQueueStats ?s') = running (getQueueStats s)"
    by (simp add: getQueueStats_def Let_def count count0 finished_def)
       (rule arg_cong [where f = length], rule filter_cong, auto)
  have comp: "completed (getQueueStats ?s') = 0"
    by (auto simp: getQueueStats_def Let_def count finished_def filter_empty_conv)
  have fail: "failed (getQueueStats ?s') = 0"
    by (auto simp: getQueueStats_def Let_def count finished_def filter_empty_conv)
  from t' n sum h' get pend run comp fail show ?thesis by blast
qed

text \<open>Witness for C6: clearing the engine with one record of each status.\<close>

theorem C6_clearCompletedTasks_witness:
  "reachable mixed \<and> fst (clearCompletedTasks mixed) = 2 \<and>
   tasks (snd (clearCompletedTasks mixed)) = [(''task_2_c'', 2), (''task_3_d'', 3)] \<and>
   getTaskStatus (snd (clearCompletedTasks mixed)) ''task_0_a'' = None \<and>
   getTaskStatus (snd (clearCompletedTasks mixed)) ''task_1_b'' = None \<and>
   getTaskStatus (snd (clearCompletedTasks mixed)) ''task_2_c'' = getTaskStatus mixed ''task_2_c'' \<and>
   getTaskStatus (snd (clearCompletedTasks mixed)) ''task_3_d'' = getTaskStatus mixed ''task_3_d'' \<and>
   pending (getQueueStats (snd (clearCompletedTasks mixed))) = 1 \<and>
   running (getQueueStats (snd (clearCompletedTasks mixed))) = 1"
proof -
  have a: "filter (\<lambda>p. \<not> finished mixed p) (tasks mixed) = [(''task_2_c'', 2), (''task_3_d'', 3)]"
    "length (filter (finished mixed) (tasks mixed)) = 2"
    by (simp_all add: mixed_eq finished_def obj_def)
  have b: "map_option status (getTaskStatus mixed ''task_0_a'') = Some Failed"
    "map_option status (getTaskStatus mixed ''task_1_b'') = Some Completed"
    "map_option status (getTaskStatus mixed ''task_2_c'') = Some Running"
    "map_option status (getTaskStatus mixed ''task_3_d'') = Some Pending"
    by (simp_all add: mixed_eq getTaskStatus_def obj_def)
  have c: "pending (getQueueStats mixed) = 1" "running (getQueueStats mixed) = 1"
    by (simp_all add: mixed_eq getQueueStats_def task_values_def obj_def)
  show ?thesis
    using C6_clearCompletedTasks [OF reachable_mixed] a b c reachable_mixed
    by (auto split: option.splits)
qed

subsection \<open>Cancellation\<close>

lemma count_Map_delete:
  "Map_get m k = Some r \<Longrightarrow>
   length (filter Q (map f (Map_delete k m))) + (if Q (f (k, r)) then 1 else 0) =
     length (filter Q (map f m))"
  by (induction m) (auto split: if_splits)

lemma cancelTask_true:
  assumes "fst (cancelTask s tid)"
  shows "\<exists>r. Map_get (tasks s) tid = Some r \<and> status (obj s r) \<noteq> Running \<and>
             status (obj s r) \<noteq> Completed \<and>
             snd (cancelTask s tid) = s\<lparr>tasks := Map_delete tid (tasks s)\<rparr>"
  using assms by (auto simp: cancelTask_def split: option.splits if_splits)

text \<open>The result of \<open>cancelTask\<close> in general: true exactly for a registered record that
  is pending or failed.\<close>

lemma cancelTask_result:
  "fst (cancelTask s tid) \<longleftrightarrow>
     (\<exists>t. getTaskStatus s tid = Some t \<and> (status t = Pending \<or> status t = Failed))"
proof (cases "Map_get (tasks s) tid")
  case None
  then show ?thesis by (simp add: cancelTask_def getTaskStatus_def)
next
  case (Some r)
  then show ?thesis
    by (cases "status (obj s r)") (simp_all add: cancelTask_def getTaskStatus_def)
qed

text \<open>
  Claim C10. When \<open>cancelTask\<close> returns true in a reachable state, the entry is deleted
  from the registry and no record is modified (there is no cancelled status): a status
  query for the id answers absent, the id is no longer a key, every other id answers as
  before, and every count over the registry (the total, the counts by status, the pending
  counts by priority) has lost exactly the cancelled record; the in-flight counter is
  untouched.
\<close>

theorem C10_cancelled_task_is_deleted:
  assumes "reachable s" and "fst (cancelTask s tid)"
  shows "getTaskStatus (snd (cancelTask s tid)) tid = None \<and>
         tid \<notin> fst ` set (tasks (snd (cancelTask s tid))) \<and>
         heap (snd (cancelTask s tid)) = heap s \<and>
         (\<forall>k. k \<noteq> tid \<longrightarrow> getTaskStatus (snd (cancelTask s tid)) k = getTaskStatus s k) \<and>
         (\<exists>t. getTaskStatus s tid = Some t \<and>
            (\<forall>P. length (filter P (task_values (snd (cancelTask s tid)))) +
                    (if P t then 1 else 0) = length (filter P (task_values s))) \<and>
            Suc (total (getQueueStats (snd (cancelTask s tid)))) = total (getQueueStats s)) \<and>
         QueueStats.runningTasks (getQueueStats (snd (cancelTask s tid))) =
           QueueStats.runningTasks (getQueueStats s)"
proof -
  let ?s' = "snd (cancelTask s tid)"
  from assms(1) have inv: "engine_inv s" by (rule reachable_engine_inv)
  then have d: "distinct (map fst (tasks s))" by (simp add: engine_inv_def registry_inv_def)
  from cancelTask_true [OF assms(2)] obtain r where
    get: "Map_get (tasks s) tid = Some r"
    and s': "?s' = s\<lparr>tasks := Map_delete tid (tasks s)\<rparr>"
    by blast
  have o': "obj ?s' = obj s" by (simp add: obj_def fun_eq_iff s')
  have t': "tasks ?s' = Map_delete tid (tasks s)" by (simp add: s')
  have gone: "getTaskStatus ?s' tid = None"
    by (simp add: getTaskStatus_def t' Map_get_Map_delete [OF d])
  have nokey: "tid \<notin> fst ` set (tasks ?s')"
    by (auto simp: t' Map_delete_filter [OF d])
  have h': "heap ?s' = heap s" by (simp add: s')
  have others: "getTaskStatus ?s' k = getTaskStatus s k" if "k \<noteq> tid" for k
    using that by (simp add: getTaskStatus_def t' o' Map_get_Map_delete [OF d] cong: option.case_cong)
  have was: "getTaskStatus s tid = Some (obj s r)"
    by (simp add: getTaskStatus_def get)
  have count: "length (filter P (task_values ?s')) + (if P (obj s r) then 1 else 0) =
      length (filter P (task_values s))" for P
    using count_Map_delete [OF get, of P "\<lambda>(k, r). obj s r"]
    by (simp add: task_values_def t' o')
  have tot: "Suc (total (getQueueStats ?s')) = total (getQueueStats s)"
    using count [of "\<lambda>t. True"] by (simp add: getQueueStats_def Let_def)
  have rt: "QueueStats.runningTasks (getQueueStats ?s') = QueueStats.runningTasks (getQueueStats s)"
    by (simp add: getQueueStats_def Let_def s')
  from gone nokey h' others was count tot rt show ?thesis by blast
qed

text \<open>Witness for C10: cancelling the pending task of the engine with one record of
  each status.\<close>

theorem C10_cancelled_task_is_deleted_witness:
  "reachable mixed \<and> fst (cancelTask mixed ''task_3_d'') \<and>
   getTaskStatus (snd (cancelTask mixed ''task_3_d'')) ''task_3_d'' = None \<and>
   total (getQueueStats mixed) = 4 \<and>
   total (getQueueStats (snd (cancelTask mixed ''task_3_d''))) = 3 \<and>
   pending (getQueueStats mixed) = 1 \<and>
   pending (getQueueStats (snd (cancelTask mixed ''task_3_d''))) = 0"
proof -
  have c: "fst (cancelTask mixed ''task_3_d'')"
    by (simp add: mixed_eq cancelTask_def obj_def)
  have t: "total (getQueueStats mixed) = 4" "pending (getQueueStats mixed) = 1"
    by (simp_all add: mixed_eq getQueueStats_def task_values_def obj_def)
  have g: "map_option status (getTaskStatus mixed ''task_3_d'') = Some Pending"
    by (simp add: mixed_eq getTaskStatus_def obj_def)
  from C10_cancelled_task_is_deleted [OF reachable_mixed c]
  obtain u where gone: "getTaskStatus (snd (cancelTask mixed ''task_3_d'')) ''task_3_d'' = None"
    and u: "getTaskStatus mixed ''task_3_d'' = Some u"
    and cnt: "\<And>P. length (filter P (task_values (snd (cancelTask mixed ''task_3_d'')))) +
                    (if P u then 1 else 0) = length (filter P (task_values mixed))"
    and tot: "Suc (total (getQueueStats (snd (cancelTask mixed ''task_3_d'')))) = total (getQueueStats mixed)"
    by blast
  from g u have "status u = Pending" by simp
  with cnt [of "\<lambda>t. status t = Pending"] t(2)
  have "pending (getQueueStats (snd (cancelTask mixed ''task_3_d''))) = 0"
    by (simp add: getQueueStats_def Let_def)
  with reachable_mixed c gone t tot show ?thesis by simp
qed

text \<open>
  Claim C2 says that \<open>cancelTask\<close> returns true only for a pending record and false for
  a running, completed or failed record and for an unknown id. The code, whose comment
  reads "Cancel a pending task", tests for running and completed only: in the reachable
  engine with one record of each status it returns true for the failed record and deletes
  it, while it returns false for the completed and the running record and for an unknown
  id, and true for the pending one.
\<close>

theorem C2_cancelTask_removes_failed_task:
  "reachable mixed \<and>
   map_option status (getTaskStatus mixed ''task_0_a'') = Some Failed \<and>
   fst (cancelTask mixed ''task_0_a'') = True \<and>
   getTaskStatus (snd (cancelTask mixed ''task_0_a'')) ''task_0_a'' = None \<and>
   map_option status (getTaskStatus mixed ''task_1_b'') = Some Completed \<and>
   fst (cancelTask mixed ''task_1_b'') = False \<and>
   map_option status (getTaskStatus mixed ''task_2_c'') = Some Running \<and>
   fst (cancelTask mixed ''task_2_c'') = False \<and>
   map_option status (getTaskStatus mixed ''task_3_d'') = Some Pending \<and>
   fst (cancelTask mixed ''task_3_d'') = True \<and>
   getTaskStatus mixed ''task_5_e'' = None \<and>
   fst (cancelTask mixed ''task_5_e'') = False"
  using reachable_mixed
  by (simp add: mixed_eq getTaskStatus_def cancelTask_def obj_def)

subsection \<open>Retry policy\<close>

text \<open>The retry policy on the claimed record: the test compares the attempts made so
  far, the current one included, with \<open>retries\<close>.\<close>

lemma settle_rejected:
  assumes "r < length (heap s)"
  shows "obj (processNextTask_settle s r (Rejected e) now) r =
     (if js_less (Finite (of_int (attempts (obj s r)))) (retries (options (obj s r)))
      then (obj s r)\<lparr>status := Pending,
                     nextRetry := Some (new_Date (js_add (Finite (of_int now))
               (retryDelay (options (obj s r)))))\<rparr>
      else (obj s r)\<lparr>status := Failed\<rparr>)"
  using assms by (simp add: processNextTask_settle_def Let_def obj_def)

lemma settle_resolved:
  assumes "r < length (heap s)"
  shows "obj (processNextTask_settle s r Resolved now) r = (obj s r)\<lparr>status := Completed\<rparr>"
  using assms by (simp add: processNextTask_settle_def Let_def obj_def)

text \<open>
  Claim C1 says that a task admitted with \<open>retries = R\<close> whose attempts all fail becomes
  failed after exactly \<open>R + 1\<close> attempts. The code retries while \<open>attempts < retries\<close>
  with the current attempt already counted. The states of the task with \<open>retries = 3\<close>
  after each event of the failing run: each failed attempt before the last puts it back to
  pending with the retry time at the clock plus the fixed 5000 ms, and the third failure,
  not the fourth, makes it failed. With \<open>retries = 1\<close> the first failure is final
  and no retry takes place.
\<close>

theorem C1_failed_after_retries_attempts:
  "map (\<lambda>n. (status (obj (run (constructor config_on) (take n failing_events)) 0),
              attempts (obj (run (constructor config_on) (take n failing_events)) 0),
              nextRetry (obj (run (constructor config_on) (take n failing_events)) 0)))
       [1, 2, 3, 4, 5, 6, 7] =
     [(Pending, 0, None), (Running, 1, None), (Pending, 1, Some (Some 5150)),
      (Running, 2, Some (Some 5150)), (Pending, 2, Some (Some 40200)),
      (Running, 3, Some (Some 40200)), (Failed, 3, Some (Some 40200))] \<and>
   retries (options (obj (run (constructor config_on) failing_events) 0)) = Finite 3 \<and>
   status (obj (run (constructor config_on) single_retry_events) 0) = Failed \<and>
   attempts (obj (run (constructor config_on) single_retry_events) 0) = 1 \<and>
   retries (options (obj (run (constructor config_on) single_retry_events) 0)) = Finite 1"
  by (simp add: failing_events_def single_retry_events_def engine_eval numeral_eq_Suc)

end
